theory Spec2Isabelle
  imports Main
begin

section \<open>dylibbundler: a shallow embedding of \<^verbatim>\<open>bundler.cpp\<close>\<close>

text \<open>
  The program inspects Mach-O binaries with \<^verbatim>\<open>otool\<close>, resolves the libraries they
  reference, and copies and patches them.  Everything it does beyond computing on
  strings goes through the operating system.  The embedding makes this explicit:

  \<^item> the answers of the operating system (\<^verbatim>\<open>realpath\<close>, \<^verbatim>\<open>access\<close>, the output of a
    command run through \<^verbatim>\<open>popen\<close>, the status of a command run through \<^verbatim>\<open>system\<close>,
    \<^verbatim>\<open>getenv\<close>) are the fields of a record \<open>env\<close>, fixed during the operation modelled;
  \<^item> the global variables of the program are the fields of two records: \<open>globals\<close>
    (the namespace \<^verbatim>\<open>Settings\<close>, \<^verbatim>\<open>missing_prefixes\<close>, the rpath tables, and the
    streams: the tokens still to be read from \<^verbatim>\<open>std::cin\<close>, the messages written to
    \<^verbatim>\<open>std::cerr\<close>, the commands passed to \<^verbatim>\<open>system\<close>) and \<open>state\<close> (the dependency
    tables \<^verbatim>\<open>deps\<close>, \<^verbatim>\<open>deps_per_file\<close>, \<^verbatim>\<open>deps_collected\<close>, on top of the globals);
  \<^item> a function of the program is a function from the state to a result and the new
    state.  The result says how the call ended: \<open>Ok v\<close> (it returned \<open>v\<close>), \<open>Exit n\<close>
    (it called \<^verbatim>\<open>exit(n)\<close>), \<open>Crash\<close> (an uncaught \<^verbatim>\<open>std::out_of_range\<close>, or an index
    outside a string or vector) and \<open>Hang\<close> (the prompt loop of
    \<^verbatim>\<open>getUserInputDirForFile\<close> repeating for ever at the end of the input).

  Progress output on \<^verbatim>\<open>std::cout\<close> is not modelled.
\<close>

subsection \<open>Results and sequencing\<close>

datatype 'a res = Ok 'a | Exit int | Crash | Hang

definition returnM :: "'a \<Rightarrow> 's \<Rightarrow> 'a res \<times> 's" where
  "returnM v s = (Ok v, s)"

definition bindM :: "('s \<Rightarrow> 'a res \<times> 's) \<Rightarrow> ('a \<Rightarrow> 's \<Rightarrow> 'b res \<times> 's) \<Rightarrow> 's \<Rightarrow> 'b res \<times> 's" where
  "bindM m f s =
     (case m s of
        (Ok v, s') \<Rightarrow> f v s'
      | (Exit n, s') \<Rightarrow> (Exit n, s')
      | (Crash, s') \<Rightarrow> (Crash, s')
      | (Hang, s') \<Rightarrow> (Hang, s'))"

text \<open>A computation that only reads the state, and one that cannot change it.\<close>

definition getsM :: "('s \<Rightarrow> 'a) \<Rightarrow> 's \<Rightarrow> 'a res \<times> 's" where
  "getsM f s = (Ok (f s), s)"

definition pureM :: "'a res \<Rightarrow> 's \<Rightarrow> 'a res \<times> 's" where
  "pureM r s = (r, s)"

subsection \<open>\<^verbatim>\<open>std::string\<close> operations\<close>

text \<open>
  \<^verbatim>\<open>find\<close> and \<^verbatim>\<open>rfind\<close> return a position or \<^verbatim>\<open>npos\<close>, here \<open>None\<close>.  Where the
  source adds to or subtracts from a position in \<^verbatim>\<open>size_t\<close>, the wrap-around of
  \<^verbatim>\<open>npos\<close> is written out at the place of use.
\<close>

definition starts_with :: "string \<Rightarrow> string \<Rightarrow> bool" where
  "starts_with pat s = (take (length pat) s = pat)"

primrec find_at :: "string \<Rightarrow> string \<Rightarrow> nat \<Rightarrow> nat option" where
  "find_at pat [] i = (if pat = [] then Some i else None)"
| "find_at pat (c # cs) i =
     (if starts_with pat (c # cs) then Some i else find_at pat cs (Suc i))"

definition str_find :: "string \<Rightarrow> string \<Rightarrow> nat option" where
  "str_find s pat = find_at pat s 0"

primrec rfind_at :: "string \<Rightarrow> string \<Rightarrow> nat \<Rightarrow> nat option" where
  "rfind_at pat [] i = (if pat = [] then Some i else None)"
| "rfind_at pat (c # cs) i =
     (case rfind_at pat cs (Suc i) of
        Some j \<Rightarrow> Some j
      | None \<Rightarrow> if starts_with pat (c # cs) then Some i else None)"

definition str_rfind :: "string \<Rightarrow> string \<Rightarrow> nat option" where
  "str_rfind s pat = rfind_at pat s 0"

definition str_contains :: "string \<Rightarrow> string \<Rightarrow> bool" where
  "str_contains s pat = (str_find s pat \<noteq> None)"

primrec first_not_of_at :: "string \<Rightarrow> string \<Rightarrow> nat \<Rightarrow> nat option" where
  "first_not_of_at ds [] i = None"
| "first_not_of_at ds (c # cs) i =
     (if c \<in> set ds then first_not_of_at ds cs (Suc i) else Some i)"

definition find_first_not_of :: "string \<Rightarrow> string \<Rightarrow> nat option" where
  "find_first_not_of s ds = first_not_of_at ds s 0"

definition find_last_not_of :: "string \<Rightarrow> string \<Rightarrow> nat option" where
  "find_last_not_of s ds =
     (case find_first_not_of (rev s) ds of
        None \<Rightarrow> None
      | Some i \<Rightarrow> Some (length s - 1 - i))"

text \<open>\<^verbatim>\<open>std::isspace\<close> in the C locale, which the program never changes.\<close>

definition isspace :: "char \<Rightarrow> bool" where
  "isspace c = (c \<in> set [CHR '' '', CHR 0x09, CHR 0x0A, CHR 0x0B, CHR 0x0C, CHR 0x0D])"

definition rtrim :: "string \<Rightarrow> string" where
  "rtrim s = rev (dropWhile isspace (rev s))"

text \<open>\<^verbatim>\<open>in.substr(in.rfind("/") + 1)\<close>: with no slash, \<^verbatim>\<open>npos + 1\<close> is \<open>0\<close>.\<close>

definition stripPrefix :: "string \<Rightarrow> string" where
  "stripPrefix s = (case str_rfind s ''/'' of None \<Rightarrow> s | Some i \<Rightarrow> drop (i + 1) s)"

text \<open>\<^verbatim>\<open>s.substr(0, s.rfind("/") + 1)\<close>: the directory part with its slash, or empty.\<close>

definition dirPrefix :: "string \<Rightarrow> string" where
  "dirPrefix s = (case str_rfind s ''/'' of None \<Rightarrow> [] | Some i \<Rightarrow> take (i + 1) s)"

text \<open>The idiom \<^verbatim>\<open>if (!p.empty() && p[p.size() - 1] != '/') p += "/"\<close>.\<close>

definition add_slash :: "string \<Rightarrow> string" where
  "add_slash p = (if p \<noteq> [] \<and> last p \<noteq> CHR ''/'' then p @ ''/'' else p)"

definition quoted :: "string \<Rightarrow> string" where
  "quoted s = CHR 0x22 # s @ [CHR 0x22]"

text \<open>\<^verbatim>\<open>tokenize\<close>: the maximal runs of characters that are not delimiters.\<close>

primrec tokenize_acc :: "string \<Rightarrow> string \<Rightarrow> string \<Rightarrow> string list" where
  "tokenize_acc ds acc [] = (if acc = [] then [] else [rev acc])"
| "tokenize_acc ds acc (c # cs) =
     (if c \<in> set ds
      then (if acc = [] then tokenize_acc ds [] cs else rev acc # tokenize_acc ds [] cs)
      else tokenize_acc ds (c # acc) cs)"

definition tokenize :: "string \<Rightarrow> string \<Rightarrow> string list" where
  "tokenize str ds = tokenize_acc ds [] str"

text \<open>
  The items \<^verbatim>\<open>std::getline(ss, item, ':')\<close> yields in a loop: an empty item between two
  delimiters is kept, nothing follows a final delimiter.
\<close>

primrec getline_acc :: "char \<Rightarrow> string \<Rightarrow> string \<Rightarrow> string list" where
  "getline_acc d acc [] = (if acc = [] then [] else [rev acc])"
| "getline_acc d acc (c # cs) =
     (if c = d then rev acc # getline_acc d [] cs else getline_acc d (c # acc) cs)"

definition getlines :: "string \<Rightarrow> char \<Rightarrow> string list" where
  "getlines s d = getline_acc d [] s"

text \<open>
  \<^verbatim>\<open>std::regex_replace(s, std::regex(pat), fmt)\<close> for a pattern without
  metacharacters and without groups: every occurrence of \<open>pat\<close>, left to right, becomes
  the expansion of the format string \<open>fmt\<close>.  In \<open>fmt\<close> a \<^verbatim>\<open>$\<close> introduces an escape:
  \<^verbatim>\<open>$$\<close> is a \<^verbatim>\<open>$\<close>, \<^verbatim>\<open>$&\<close> the match, \<^verbatim>\<open>$`\<close> the text between the match before and
  this one, \<^verbatim>\<open>$'\<close> the text after this match, and \<^verbatim>\<open>$\<close> with one or two digits the
  group of that number: the match for \<open>0\<close>, nothing for the others.  Any other \<^verbatim>\<open>$\<close>
  stands for itself.
\<close>

definition is_digit :: "char \<Rightarrow> bool" where
  "is_digit c = ((48::nat) \<le> of_char c \<and> (of_char c :: nat) \<le> 57)"

definition digit_value :: "char \<Rightarrow> nat" where
  "digit_value c = of_char c - 48"

fun format_expand :: "string \<Rightarrow> string \<Rightarrow> string \<Rightarrow> string \<Rightarrow> string" where
  "format_expand [] m pre suf = []"
| "format_expand [c] m pre suf = [c]"
| "format_expand (c # n # r) m pre suf =
     (if c \<noteq> CHR ''$'' then c # format_expand (n # r) m pre suf
      else if n = CHR ''$'' then CHR ''$'' # format_expand r m pre suf
      else if n = CHR ''&'' then m @ format_expand r m pre suf
      else if n = CHR 0x60 then pre @ format_expand r m pre suf
      else if n = CHR 0x27 then suf @ format_expand r m pre suf
      else if is_digit n then
        (case r of
           [] \<Rightarrow> (if digit_value n = 0 then m else [])
         | n2 # r2 \<Rightarrow>
             if is_digit n2
             then (if 10 * digit_value n + digit_value n2 = 0 then m else [])
                    @ format_expand r2 m pre suf
             else (if digit_value n = 0 then m else []) @ format_expand r m pre suf)
      else CHR ''$'' # format_expand (n # r) m pre suf)"

text \<open>
  \<open>replace_from pat fmt pre s\<close>: the replacement in \<open>s\<close>, where \<open>pre\<close> holds, last
  character first, the text passed over since the match before.
\<close>

fun replace_from :: "string \<Rightarrow> string \<Rightarrow> string \<Rightarrow> string \<Rightarrow> string" where
  "replace_from pat fmt pre [] = []"
| "replace_from pat fmt pre (c # cs) =
     (if pat \<noteq> [] \<and> starts_with pat (c # cs)
      then format_expand fmt pat (rev pre) (drop (length pat) (c # cs))
             @ replace_from pat fmt [] (drop (length pat) (c # cs))
      else c # replace_from pat fmt (c # pre) cs)"

definition replace_all :: "string \<Rightarrow> string \<Rightarrow> string \<Rightarrow> string" where
  "replace_all pat fmt s = replace_from pat fmt [] s"

text \<open>
  \<^verbatim>\<open>std::regex_replace(s, std::regex("^@[a-z_]+path/"), "")\<close>.  The class \<^verbatim>\<open>[a-z_]\<close> has
  no slash, so a match ends at the first slash of \<open>s\<close>: it exists when \<open>s\<close> is \<^verbatim>\<open>@\<close>,
  then at least five characters of the class of which the last four are \<^verbatim>\<open>path\<close>,
  then the slash.
\<close>

definition lower_or_underscore :: "char \<Rightarrow> bool" where
  "lower_or_underscore c =
     (c = CHR ''_'' \<or> ((97::nat) \<le> of_char c \<and> (of_char c :: nat) \<le> 122))"

definition strip_path_marker :: "string \<Rightarrow> string" where
  "strip_path_marker s =
     (case s of
        [] \<Rightarrow> s
      | c # cs \<Rightarrow>
          (let w = takeWhile (\<lambda>x. x \<noteq> CHR ''/'') cs in
           if c = CHR ''@'' \<and> length w < length cs \<and> list_all lower_or_underscore w
              \<and> 5 \<le> length w \<and> drop (length w - 4) w = ''path''
           then drop (length w + 1) cs
           else s))"

subsection \<open>The operating system, the global variables, the class \<^verbatim>\<open>Dependency\<close>\<close>

record env =
  realpath :: "string \<Rightarrow> string option"
  access :: "string \<Rightarrow> bool"
  system_get_output :: "string \<Rightarrow> string"
  system :: "string \<Rightarrow> int"
  getenv :: "string \<Rightarrow> string option"

text \<open>
  \<open>realpath env p\<close> is \<open>Some\<close> of the buffer when \<^verbatim>\<open>realpath(p, buffer)\<close> succeeds;
  \<open>access env p\<close> says that \<^verbatim>\<open>access(p, F_OK) != -1\<close>; \<open>system_get_output env c\<close> is
  what the function of that name returns for the command \<open>c\<close> (empty when the command
  fails); \<open>system env c\<close> is the status \<^verbatim>\<open>system(c)\<close> returns.

  One constructor of \<open>diag\<close> for each message the program writes to \<^verbatim>\<open>std::cerr\<close>, with
  the variable parts of the message.
\<close>

datatype diag =
    CannotResolvePath string
  | IncompleteName string
  | NoRpathsForNonexistentFile string
  | UnexpectedRpathFormat
  | CantGetPathFor string
  | WasFound string
  | DoesNotExistTryAgain string
  | CannotFindFile string
  | NoNameBeforeNextCmd
  | OverwriteDestFailed
  | CreateDestFailed
  | DestDoesNotExist
  | FileAlreadyExists string
  | CopyFailed string string
  | ChmodFailed string
  | ChangeInstallNameFailed string
  | ChangeIdentityFailed string
  | FixRpathFailed string

record globals =
  overwrite_files :: bool
  overwrite_dir :: bool
  create_dir :: bool
  codesign :: bool
  bundleLibs_bool :: bool
  dest_folder_str :: string
  files :: "string list"
  inside_path_str :: string
  prefixes_to_ignore :: "string list"
  searchPaths :: "string list"
  missing_prefixes :: bool
  rpaths_per_file :: "string \<rightharpoonup> string list"
  rpath_to_fullpath :: "string \<rightharpoonup> string"
  cin :: "string list"
  cerr :: "diag list"
  cmds :: "string list"

record Dependency =
  filename :: string
  prefix :: string
  symlinks :: "string list"
  new_name :: string

record state =
  glob :: globals
  deps :: "Dependency list"
  deps_per_file :: "string \<rightharpoonup> Dependency list"
  deps_collected :: "string \<rightharpoonup> bool"

text \<open>The values the globals have when \<^verbatim>\<open>main\<close> starts, with \<open>input\<close> on \<^verbatim>\<open>std::cin\<close>.\<close>

definition initial_globals :: "string list \<Rightarrow> globals" where
  "initial_globals input =
     \<lparr>overwrite_files = False, overwrite_dir = False, create_dir = False, codesign = True,
      bundleLibs_bool = False, dest_folder_str = ''./libs/'', files = [],
      inside_path_str = ''@executable_path/../libs/'', prefixes_to_ignore = [],
      searchPaths = [], missing_prefixes = False, rpaths_per_file = Map.empty,
      rpath_to_fullpath = Map.empty, cin = input, cerr = [], cmds = []\<rparr>"

definition initial_state :: "string list \<Rightarrow> state" where
  "initial_state input =
     \<lparr>glob = initial_globals input, deps = [], deps_per_file = Map.empty,
      deps_collected = Map.empty\<rparr>"

definition liftG :: "(globals \<Rightarrow> 'a res \<times> globals) \<Rightarrow> state \<Rightarrow> 'a res \<times> state" where
  "liftG m st = (case m (glob st) of (r, g) \<Rightarrow> (r, st\<lparr>glob := g\<rparr>))"

primrec forM :: "'a list \<Rightarrow> ('a \<Rightarrow> 's \<Rightarrow> unit res \<times> 's) \<Rightarrow> 's \<Rightarrow> unit res \<times> 's" where
  "forM [] f = returnM ()"
| "forM (x # xs) f = bindM (f x) (\<lambda>_. forM xs f)"

definition warn :: "diag \<Rightarrow> globals \<Rightarrow> unit res \<times> globals" where
  "warn d g = (Ok (), g\<lparr>cerr := cerr g @ [d]\<rparr>)"

text \<open>A message on \<^verbatim>\<open>std::cerr\<close> followed by \<^verbatim>\<open>exit(1)\<close>.\<close>

definition die :: "diag \<Rightarrow> globals \<Rightarrow> 'a res \<times> globals" where
  "die d g = (Exit 1, g\<lparr>cerr := cerr g @ [d]\<rparr>)"

subsection \<open>The namespace \<^verbatim>\<open>Settings\<close>\<close>

text \<open>
  The three setters that normalise a trailing slash read \<^verbatim>\<open>s[s.size() - 1]\<close>, which
  is outside the string when it is empty.  The behaviour of the program is then
  undefined; the embedding ends the run there (\<open>Crash\<close>), and so it does for the same
  idiom in \<^verbatim>\<open>initSearchPaths\<close> and \<^verbatim>\<open>searchFilenameInRpaths\<close>.  No statement below
  rests on what happens in these cases.
\<close>

definition destFolder :: "string \<Rightarrow> globals \<Rightarrow> unit res \<times> globals" where
  "destFolder path g =
     (if path = [] then (Crash, g\<lparr>dest_folder_str := path\<rparr>)
      else (Ok (), g\<lparr>dest_folder_str := (if last path \<noteq> CHR ''/'' then path @ ''/'' else path)\<rparr>))"

definition inside_lib_path :: "string \<Rightarrow> globals \<Rightarrow> unit res \<times> globals" where
  "inside_lib_path p g =
     (if p = [] then (Crash, g\<lparr>inside_path_str := p\<rparr>)
      else (Ok (), g\<lparr>inside_path_str := (if last p \<noteq> CHR ''/'' then p @ ''/'' else p)\<rparr>))"

definition ignore_prefix :: "string \<Rightarrow> globals \<Rightarrow> unit res \<times> globals" where
  "ignore_prefix pfx g =
     (if pfx = [] then (Crash, g)
      else (Ok (), g\<lparr>prefixes_to_ignore :=
              prefixes_to_ignore g @ [if last pfx \<noteq> CHR ''/'' then pfx @ ''/'' else pfx]\<rparr>))"

definition addFileToFix :: "string \<Rightarrow> globals \<Rightarrow> unit res \<times> globals" where
  "addFileToFix path g = (Ok (), g\<lparr>files := files g @ [path]\<rparr>)"

definition addSearchPath :: "string \<Rightarrow> globals \<Rightarrow> unit res \<times> globals" where
  "addSearchPath path g = (Ok (), g\<lparr>searchPaths := searchPaths g @ [path]\<rparr>)"

definition isSystemLibrary :: "string \<Rightarrow> bool" where
  "isSystemLibrary pfx =
     (if str_find pfx ''/usr/lib/'' = Some 0 then True
      else if str_find pfx ''/System/Library/'' = Some 0 then True
      else False)"

definition isPrefixIgnored :: "globals \<Rightarrow> string \<Rightarrow> bool" where
  "isPrefixIgnored g pfx = list_ex (\<lambda>p. pfx = p) (prefixes_to_ignore g)"

definition isPrefixBundled :: "globals \<Rightarrow> string \<Rightarrow> bool" where
  "isPrefixBundled g pfx =
     (if str_contains pfx ''.framework'' then False
      else if str_contains pfx ''@executable_path'' then False
      else if isSystemLibrary pfx then False
      else if isPrefixIgnored g pfx then False
      else True)"

subsection \<open>Files and commands\<close>

text \<open>
  \<^verbatim>\<open>fileExists\<close> tries the name as given, then with the white space around it removed.
  \<^verbatim>\<open>rtrimmed.substr(rtrimmed.find_first_not_of(delims))\<close> throws \<^verbatim>\<open>std::out_of_range\<close>
  when the name has nothing but white space: \<^verbatim>\<open>npos\<close> is past the end.
\<close>

definition delims :: string where
  "delims = [CHR '' '', CHR 0x0C, CHR 0x0A, CHR 0x0D, CHR 0x09, CHR 0x0B]"

definition fileExists :: "env \<Rightarrow> string \<Rightarrow> bool res" where
  "fileExists e file =
     (if access e file then Ok True
      else
        (let rtrimmed =
               take (case find_last_not_of file delims of None \<Rightarrow> 0 | Some i \<Rightarrow> i + 1) file
         in case find_first_not_of rtrimmed delims of
              None \<Rightarrow> Crash
            | Some i \<Rightarrow> if access e (drop i rtrimmed) then Ok True else Ok False))"

definition systemp :: "env \<Rightarrow> string \<Rightarrow> globals \<Rightarrow> int res \<times> globals" where
  "systemp e cmd g = (Ok (system e cmd), g\<lparr>cmds := cmds g @ [cmd]\<rparr>)"

definition copy_command :: "bool \<Rightarrow> string \<Rightarrow> string \<Rightarrow> string" where
  "copy_command override from_f to_f =
     ''cp '' @ (if override then ''-f '' else ''-n '') @ quoted from_f @ '' '' @ quoted to_f"

definition chmod_command :: "string \<Rightarrow> string" where
  "chmod_command to_f = ''chmod +w '' @ quoted to_f"

definition copyFile :: "env \<Rightarrow> string \<Rightarrow> string \<Rightarrow> globals \<Rightarrow> unit res \<times> globals" where
  "copyFile e from_f to_f =
     bindM (getsM overwrite_files) (\<lambda>override.
     bindM (if from_f \<noteq> to_f \<and> \<not> override
            then bindM (pureM (fileExists e to_f)) (\<lambda>ex.
                   if ex then die (FileAlreadyExists to_f) else returnM ())
            else returnM ()) (\<lambda>_.
     bindM (if from_f \<noteq> to_f
            then bindM (systemp e (copy_command override from_f to_f)) (\<lambda>rc.
                   if rc \<noteq> 0 then die (CopyFailed from_f to_f) else returnM ())
            else returnM ()) (\<lambda>_.
     bindM (systemp e (chmod_command to_f)) (\<lambda>rc.
       if rc \<noteq> 0 then die (ChmodFailed to_f) else returnM ()))))"

definition rm_command :: "string \<Rightarrow> string" where
  "rm_command dest_folder = ''rm -r '' @ quoted dest_folder"

definition mkdir_command :: "string \<Rightarrow> string" where
  "mkdir_command dest_folder = ''mkdir -p '' @ quoted dest_folder"

definition createDestDir :: "env \<Rightarrow> globals \<Rightarrow> unit res \<times> globals" where
  "createDestDir e =
     bindM (getsM dest_folder_str) (\<lambda>dest_folder.
     bindM (pureM (fileExists e dest_folder)) (\<lambda>dest_exists.
     bindM (getsM overwrite_dir) (\<lambda>can_overwrite.
     bindM (if dest_exists \<and> can_overwrite
            then bindM (systemp e (rm_command dest_folder)) (\<lambda>rc.
                   if rc \<noteq> 0 then die OverwriteDestFailed else returnM False)
            else returnM dest_exists) (\<lambda>dest_exists.
     if \<not> dest_exists
     then bindM (getsM create_dir) (\<lambda>can_create.
            if can_create
            then bindM (systemp e (mkdir_command dest_folder)) (\<lambda>rc.
                   if rc \<noteq> 0 then die CreateDestFailed else returnM ())
            else die DestDoesNotExist)
     else returnM ()))))"

definition change_command :: "string \<Rightarrow> string \<Rightarrow> string \<Rightarrow> string" where
  "change_command binary_file old_name nw_name =
     ''install_name_tool -change '' @ quoted old_name @ '' '' @ quoted nw_name @ '' ''
       @ quoted binary_file"

definition changeInstallName ::
  "env \<Rightarrow> string \<Rightarrow> string \<Rightarrow> string \<Rightarrow> globals \<Rightarrow> unit res \<times> globals" where
  "changeInstallName e binary_file old_name nw_name =
     bindM (systemp e (change_command binary_file old_name nw_name)) (\<lambda>rc.
       if rc \<noteq> 0 then die (ChangeInstallNameFailed binary_file) else returnM ())"

subsection \<open>The methods of \<^verbatim>\<open>Dependency\<close>\<close>

definition getOriginalPath :: "Dependency \<Rightarrow> string" where
  "getOriginalPath d = prefix d @ filename d"

definition getInstallPath :: "globals \<Rightarrow> Dependency \<Rightarrow> string" where
  "getInstallPath g d = dest_folder_str g @ new_name d"

definition getInnerPath :: "globals \<Rightarrow> Dependency \<Rightarrow> string" where
  "getInnerPath g d = inside_path_str g @ new_name d"

definition addSymlink :: "string \<Rightarrow> Dependency \<Rightarrow> Dependency" where
  "addSymlink s d = (if s \<in> set (symlinks d) then d else d\<lparr>symlinks := symlinks d @ [s]\<rparr>)"

text \<open>
  \<open>mergeIfSameAs d dep2\<close> is the call \<^verbatim>\<open>d.mergeIfSameAs(dep2)\<close>: the answer, and \<open>dep2\<close>
  as the call leaves it.
\<close>

definition mergeIfSameAs :: "Dependency \<Rightarrow> Dependency \<Rightarrow> bool \<times> Dependency" where
  "mergeIfSameAs d dep2 =
     (if filename dep2 = filename d
      then (True, foldl (\<lambda>d2 s. addSymlink s d2) dep2 (symlinks d))
      else (False, dep2))"

definition fixFileThatDependsOnMe ::
  "env \<Rightarrow> Dependency \<Rightarrow> string \<Rightarrow> globals \<Rightarrow> unit res \<times> globals" where
  "fixFileThatDependsOnMe e d file_to_fix =
     bindM (getsM (\<lambda>g. getInnerPath g d)) (\<lambda>inner.
     bindM (changeInstallName e file_to_fix (getOriginalPath d) inner) (\<lambda>_.
     bindM (forM (symlinks d) (\<lambda>s. changeInstallName e file_to_fix s inner)) (\<lambda>_.
     bindM (getsM missing_prefixes) (\<lambda>missing.
       if missing
       then bindM (changeInstallName e file_to_fix (filename d) inner) (\<lambda>_.
              forM (symlinks d) (\<lambda>s. changeInstallName e file_to_fix s inner))
       else returnM ()))))"

definition copyYourself :: "env \<Rightarrow> Dependency \<Rightarrow> globals \<Rightarrow> unit res \<times> globals" where
  "copyYourself e d =
     bindM (getsM (\<lambda>g. (getInstallPath g d, getInnerPath g d))) (\<lambda>(install, inner).
     bindM (copyFile e (getOriginalPath d) install) (\<lambda>_.
     bindM (systemp e (''install_name_tool -id '' @ quoted inner @ '' '' @ quoted install)) (\<lambda>rc.
       if rc \<noteq> 0 then die (ChangeIdentityFailed install) else returnM ())))"

subsection \<open>Looking for a library in the search paths and asking the user\<close>

text \<open>
  The loops over \<^verbatim>\<open>Settings::searchPath(n)\<close> stop at the first path whose candidate
  \<open>cand p\<close> exists.
\<close>

primrec first_existing ::
  "env \<Rightarrow> (string \<Rightarrow> string) \<Rightarrow> string list \<Rightarrow> 's \<Rightarrow> string option res \<times> 's" where
  "first_existing e cand [] = returnM None"
| "first_existing e cand (p # ps) =
     bindM (pureM (fileExists e (cand p))) (\<lambda>ex.
       if ex then returnM (Some p) else first_existing e cand ps)"

text \<open>
  The prompt loop of \<^verbatim>\<open>getUserInputDirForFile\<close>.  \<^verbatim>\<open>std::cin >> prefix\<close> takes the next
  token of the input.  At the end of the input it leaves \<open>prefix\<close> empty, every time:
  the loop returns at once when the bare file name exists, and repeats for ever
  otherwise (\<open>Hang\<close>, after the first of its messages).
\<close>

primrec prompt_loop :: "env \<Rightarrow> string \<Rightarrow> string list \<Rightarrow> globals \<Rightarrow> string res \<times> globals" where
  "prompt_loop e file [] =
     bindM (pureM (fileExists e file)) (\<lambda>ex.
       if ex
       then bindM (warn (WasFound file)) (\<lambda>_.
            bindM (addSearchPath []) (\<lambda>_. returnM []))
       else bindM (warn (DoesNotExistTryAgain file)) (\<lambda>_. pureM Hang))"
| "prompt_loop e file (tok # toks) =
     bindM (\<lambda>g. (Ok (), g\<lparr>cin := toks\<rparr>)) (\<lambda>_.
       if tok = ''quit'' then pureM (Exit 1)
       else
         bindM (pureM (fileExists e (add_slash tok @ file))) (\<lambda>ex.
           if ex
           then bindM (warn (WasFound (add_slash tok @ file))) (\<lambda>_.
                bindM (addSearchPath (add_slash tok)) (\<lambda>_. returnM (add_slash tok)))
           else bindM (warn (DoesNotExistTryAgain (add_slash tok @ file))) (\<lambda>_.
                prompt_loop e file toks)))"

definition getUserInputDirForFile :: "env \<Rightarrow> string \<Rightarrow> globals \<Rightarrow> string res \<times> globals" where
  "getUserInputDirForFile e file =
     bindM (getsM searchPaths) (\<lambda>sps.
     bindM (first_existing e (\<lambda>p. add_slash p @ file) sps) (\<lambda>found.
       case found of
         Some p \<Rightarrow> bindM (warn (WasFound (add_slash p @ file))) (\<lambda>_. returnM (add_slash p))
       | None \<Rightarrow> bindM (getsM cin) (\<lambda>toks. prompt_loop e file toks)))"

definition append_env :: "string \<Rightarrow> string option \<Rightarrow> string" where
  "append_env sp v =
     (case v of
        None \<Rightarrow> sp
      | Some d \<Rightarrow> (if sp \<noteq> [] \<and> last sp \<noteq> CHR '':'' then sp @ '':'' else sp) @ d)"

text \<open>An empty item makes \<^verbatim>\<open>item[item.size() - 1]\<close> read outside the string.\<close>

definition initSearchPaths :: "env \<Rightarrow> globals \<Rightarrow> unit res \<times> globals" where
  "initSearchPaths e =
     (let sp0 = (case getenv e ''DYLD_LIBRARY_PATH'' of None \<Rightarrow> [] | Some d \<Rightarrow> d);
          sp1 = append_env sp0 (getenv e ''DYLD_FALLBACK_FRAMEWORK_PATH'');
          sp2 = append_env sp1 (getenv e ''DYLD_FALLBACK_LIBRARY_PATH'')
      in if sp2 \<noteq> []
         then forM (getlines sp2 CHR '':'') (\<lambda>item.
                if item = [] then pureM Crash
                else addSearchPath (if last item \<noteq> CHR ''/'' then item @ ''/'' else item))
         else returnM ())"

subsection \<open>Resolving \<^verbatim>\<open>@rpath\<close> and \<^verbatim>\<open>@loader_path\<close> references\<close>

definition isRpath :: "string \<Rightarrow> bool" where
  "isRpath path = (str_find path ''@rpath'' = Some 0 \<or> str_find path ''@loader_path'' = Some 0)"

text \<open>
  The lambda \<^verbatim>\<open>check_path\<close> of \<^verbatim>\<open>searchFilenameInRpaths\<close>.  Its answer \<open>Some fullpath\<close>
  stands for \<^verbatim>\<open>true\<close> with the variable \<^verbatim>\<open>fullpath\<close> assigned.  A path with neither
  marker leaves \<^verbatim>\<open>path_to_check\<close> empty.
\<close>

definition check_path ::
  "env \<Rightarrow> string \<Rightarrow> string \<Rightarrow> string \<Rightarrow> globals \<Rightarrow> string option res \<times> globals" where
  "check_path e rpath_file dependent_file path =
     (let file_prefix = dirPrefix dependent_file in
      if dependent_file \<noteq> rpath_file
      then
        (let path_to_check =
               (if str_contains path ''@loader_path''
                then replace_all ''@loader_path/'' file_prefix path
                else if str_contains path ''@rpath''
                then replace_all ''@rpath/'' file_prefix path
                else [])
         in case realpath e path_to_check of
              Some fullpath \<Rightarrow>
                (\<lambda>g. (Ok (Some fullpath),
                       g\<lparr>rpath_to_fullpath := (rpath_to_fullpath g)(rpath_file \<mapsto> fullpath)\<rparr>))
            | None \<Rightarrow> returnM None)
      else returnM None)"

text \<open>\<^verbatim>\<open>rpaths_per_file[file]\<close>: \<^verbatim>\<open>operator[]\<close> of \<^verbatim>\<open>std::map\<close> adds the missing key.\<close>

definition rpaths_at :: "string \<Rightarrow> globals \<Rightarrow> string list res \<times> globals" where
  "rpaths_at file g =
     (case rpaths_per_file g file of
        Some v \<Rightarrow> (Ok v, g)
      | None \<Rightarrow> (Ok [], g\<lparr>rpaths_per_file := (rpaths_per_file g)(file \<mapsto> [])\<rparr>))"

text \<open>An empty rpath entry makes \<^verbatim>\<open>rpath[rpath.size() - 1]\<close> read outside the string.\<close>

primrec rpath_loop ::
  "env \<Rightarrow> string \<Rightarrow> string \<Rightarrow> string \<Rightarrow> string list \<Rightarrow> globals \<Rightarrow> unit res \<times> globals" where
  "rpath_loop e rpath_file dependent_file suffix [] = returnM ()"
| "rpath_loop e rpath_file dependent_file suffix (rpath # rest) =
     (if rpath = [] then pureM Crash
      else
        bindM (check_path e rpath_file dependent_file
                 ((if last rpath \<noteq> CHR ''/'' then rpath @ ''/'' else rpath) @ suffix)) (\<lambda>hit.
          if hit \<noteq> None then returnM ()
          else rpath_loop e rpath_file dependent_file suffix rest))"

definition searchFilenameInRpaths ::
  "env \<Rightarrow> string \<Rightarrow> string \<Rightarrow> globals \<Rightarrow> string res \<times> globals" where
  "searchFilenameInRpaths e rpath_file dependent_file =
     (let suffix = strip_path_marker rpath_file in
      bindM (getsM (\<lambda>g. rpath_to_fullpath g rpath_file)) (\<lambda>cached.
      bindM (case cached of
               Some fp \<Rightarrow> returnM fp
             | None \<Rightarrow>
                 bindM (check_path e rpath_file dependent_file rpath_file) (\<lambda>hit.
                   case hit of
                     Some fp \<Rightarrow> returnM fp
                   | None \<Rightarrow>
                       bindM (rpaths_at dependent_file) (\<lambda>rpaths.
                       bindM (rpath_loop e rpath_file dependent_file suffix rpaths) (\<lambda>_.
                       getsM (\<lambda>g. case rpath_to_fullpath g rpath_file of
                                     Some fp \<Rightarrow> fp
                                   | None \<Rightarrow> []))))) (\<lambda>fullpath.
      if fullpath = []
      then
        bindM (getsM searchPaths) (\<lambda>sps.
        bindM (first_existing e (\<lambda>p. p @ suffix) sps) (\<lambda>found.
          (let fullpath = (case found of Some p \<Rightarrow> p @ suffix | None \<Rightarrow> []) in
           if fullpath = []
           then
             bindM (warn (CantGetPathFor rpath_file)) (\<lambda>_.
             bindM (getUserInputDirForFile e suffix) (\<lambda>dir.
               returnM (case realpath e (dir @ suffix) of
                          Some buffer \<Rightarrow> buffer
                        | None \<Rightarrow> dir @ suffix)))
           else returnM fullpath)))
      else returnM fullpath)))"

subsection \<open>The constructor of \<^verbatim>\<open>Dependency\<close>\<close>

text \<open>
  In three steps.  \<open>Dependency_resolve\<close> is the choice of \<^verbatim>\<open>original_file\<close> (the
  \<^verbatim>\<open>if\<close> chain after \<^verbatim>\<open>rtrim(path)\<close>), for a path already trimmed.
  \<open>Dependency_locate\<close> is the search for the directory of a library that is to be
  bundled; it returns the prefix.  \<open>Dependency_ctor\<close> is the constructor.
\<close>

definition Dependency_resolve ::
  "env \<Rightarrow> string \<Rightarrow> string \<Rightarrow> globals \<Rightarrow> string res \<times> globals" where
  "Dependency_resolve e path dependent_file =
     (if isRpath path then searchFilenameInRpaths e path dependent_file
      else
        (case realpath e (rtrim path) of
           Some original_file_buffer \<Rightarrow> returnM original_file_buffer
         | None \<Rightarrow> bindM (warn (CannotResolvePath path)) (\<lambda>_. returnM path)))"

definition location_unknown :: "env \<Rightarrow> string \<Rightarrow> string \<Rightarrow> globals \<Rightarrow> bool res \<times> globals" where
  "location_unknown e pfx file =
     (if pfx = [] then returnM True
      else bindM (pureM (fileExists e (pfx @ file))) (\<lambda>ex. returnM (\<not> ex)))"

definition Dependency_locate ::
  "env \<Rightarrow> string \<Rightarrow> string \<Rightarrow> globals \<Rightarrow> string res \<times> globals" where
  "Dependency_locate e file pfx =
     bindM (location_unknown e pfx file) (\<lambda>unknown.
     bindM (if unknown
            then
              bindM (getsM searchPaths) (\<lambda>sps0.
              bindM (if length sps0 = 0 then initSearchPaths e else returnM ()) (\<lambda>_.
              bindM (getsM searchPaths) (\<lambda>sps.
              bindM (first_existing e (\<lambda>p. p @ file) sps) (\<lambda>found.
                case found of
                  Some search_path \<Rightarrow>
                    bindM (\<lambda>g. (Ok (), g\<lparr>missing_prefixes := True\<rparr>)) (\<lambda>_.
                      returnM search_path)
                | None \<Rightarrow> returnM pfx))))
            else returnM pfx) (\<lambda>pfx.
     bindM (getsM (\<lambda>g. isPrefixIgnored g pfx)) (\<lambda>ignored.
     bindM (if \<not> ignored then location_unknown e pfx file else returnM False) (\<lambda>unknown.
     bindM (if unknown
            then
              bindM (warn (IncompleteName file)) (\<lambda>_.
              bindM (\<lambda>g. (Ok (), g\<lparr>missing_prefixes := True\<rparr>)) (\<lambda>_.
              bindM (getUserInputDirForFile e file) (\<lambda>dir. addSearchPath dir)))
            else returnM ()) (\<lambda>_.
     returnM pfx)))))"

definition Dependency_ctor ::
  "env \<Rightarrow> string \<Rightarrow> string \<Rightarrow> globals \<Rightarrow> Dependency res \<times> globals" where
  "Dependency_ctor e path0 dependent_file =
     (let path = rtrim path0 in
      bindM (Dependency_resolve e path dependent_file) (\<lambda>original_file.
        (let syms = (if original_file \<noteq> path then [path] else []);
             file = stripPrefix original_file;
             pfx = add_slash (dirPrefix original_file)
         in
           bindM (getsM (\<lambda>g. isPrefixBundled g pfx)) (\<lambda>bundled.
             if \<not> bundled
             then returnM \<lparr>filename = file, prefix = pfx, symlinks = syms, new_name = []\<rparr>
             else
               bindM (Dependency_locate e file pfx) (\<lambda>pfx.
                 returnM \<lparr>filename = file, prefix = pfx, symlinks = syms,
                          new_name = file\<rparr>)))))"

subsection \<open>Reading the load commands\<close>

text \<open>
  The loop of \<^verbatim>\<open>collectRpaths\<close> over the lines of \<^verbatim>\<open>otool -l\<close>: \<open>Some rpath\<close> for an
  entry it stores, \<open>None\<close> for a line it warns about.  After a line with \<^verbatim>\<open>LC_RPATH\<close>
  it skips one line.
\<close>

fun rpath_scan :: "bool \<Rightarrow> string list \<Rightarrow> string option list" where
  "rpath_scan read_rpath [] = []"
| "rpath_scan True (line # rest) =
     (case (str_find line ''path '', str_find line '' ('') of
        (Some start_pos, Some end_pos) \<Rightarrow>
          Some (if start_pos + 5 \<le> end_pos
                then take (end_pos - (start_pos + 5)) (drop (start_pos + 5) line)
                else drop (start_pos + 5) line)
            # rpath_scan False rest
      | _ \<Rightarrow> None # rpath_scan True rest)"
| "rpath_scan False [line] = []"
| "rpath_scan False (line # skipped # rest) =
     (if str_contains line ''LC_RPATH'' then rpath_scan True rest
      else rpath_scan False (skipped # rest))"

definition otool_command :: "string \<Rightarrow> string" where
  "otool_command file = ''otool -l '' @ quoted file"

definition collectRpaths :: "env \<Rightarrow> string \<Rightarrow> globals \<Rightarrow> unit res \<times> globals" where
  "collectRpaths e file =
     bindM (pureM (fileExists e file)) (\<lambda>ex.
       if \<not> ex then warn (NoRpathsForNonexistentFile file)
       else
         forM (rpath_scan False (tokenize (system_get_output e (otool_command file)) [CHR 0x0A]))
           (\<lambda>entry.
              case entry of
                None \<Rightarrow> warn UnexpectedRpathFormat
              | Some rpath \<Rightarrow>
                  bindM (rpaths_at file) (\<lambda>rpaths.
                    (\<lambda>g. (Ok (), g\<lparr>rpaths_per_file :=
                                      (rpaths_per_file g)(file \<mapsto> rpaths @ [rpath])\<rparr>)))))"

text \<open>
  The loop of the two-argument \<^verbatim>\<open>collectDependencies\<close>: the lines it collects, or
  \<open>None\<close> where it exits because a load command has no name.
\<close>

primrec load_scan :: "bool \<Rightarrow> string list \<Rightarrow> string list \<Rightarrow> string list option" where
  "load_scan searching acc [] = Some (rev acc)"
| "load_scan searching acc (line # rest) =
     (if str_contains line ''cmd LC_LOAD_DYLIB'' \<or> str_contains line ''cmd LC_REEXPORT_DYLIB''
      then (if searching then None else load_scan True acc rest)
      else if searching
      then
        (case str_find line ''name '' of
           Some found \<Rightarrow> load_scan False ((CHR 0x09 # drop (found + 5) line) # acc) rest
         | None \<Rightarrow> load_scan True acc rest)
      else load_scan searching acc rest)"

definition collectDependencies_lines ::
  "env \<Rightarrow> string \<Rightarrow> globals \<Rightarrow> string list res \<times> globals" where
  "collectDependencies_lines e file =
     (let output = system_get_output e (otool_command file) in
      if str_contains output ''can't open file'' \<or> str_contains output ''No such file''
         \<or> length output < 1
      then die (CannotFindFile file)
      else
        (case load_scan False [] (tokenize output [CHR 0x0A]) of
           None \<Rightarrow> die NoNameBeforeNextCmd
         | Some lines \<Rightarrow> returnM lines))"

subsection \<open>The dependency tables\<close>

text \<open>
  The loop \<^verbatim>\<open>for n: if (dep.mergeIfSameAs(v[n])) found = true\<close> over a vector \<open>v\<close>: the
  flag, and the vector as the loop leaves it.
\<close>

primrec merge_into :: "Dependency \<Rightarrow> Dependency list \<Rightarrow> bool \<times> Dependency list" where
  "merge_into dep [] = (False, [])"
| "merge_into dep (d # ds) =
     (case mergeIfSameAs dep d of
        (same, d') \<Rightarrow> (case merge_into dep ds of (found, ds') \<Rightarrow> (same \<or> found, d' # ds')))"

text \<open>\<^verbatim>\<open>deps_per_file[file]\<close>, which adds the missing key with an empty vector.\<close>

definition deps_per_file_at :: "string \<Rightarrow> state \<Rightarrow> Dependency list res \<times> state" where
  "deps_per_file_at file st =
     (case deps_per_file st file of
        Some v \<Rightarrow> (Ok v, st)
      | None \<Rightarrow> (Ok [], st\<lparr>deps_per_file := (deps_per_file st)(file \<mapsto> [])\<rparr>))"

text \<open>
  \<^verbatim>\<open>addDependency\<close> merges into the elements of \<^verbatim>\<open>deps\<close> themselves, and into a copy
  of \<^verbatim>\<open>deps_per_file[filename]\<close>: of that second loop only the flag remains.
\<close>

definition addDependency :: "env \<Rightarrow> string \<Rightarrow> string \<Rightarrow> state \<Rightarrow> unit res \<times> state" where
  "addDependency e path file =
     bindM (liftG (Dependency_ctor e path file)) (\<lambda>dep.
     bindM (\<lambda>st. case merge_into dep (deps st) of
                   (in_deps, deps') \<Rightarrow> (Ok in_deps, st\<lparr>deps := deps'\<rparr>)) (\<lambda>in_deps.
     bindM (deps_per_file_at file) (\<lambda>deps_in_file.
       (let in_deps_per_file = fst (merge_into dep deps_in_file) in
        bindM (getsM (\<lambda>st. isPrefixBundled (glob st) (prefix dep))) (\<lambda>bundled.
          if \<not> bundled then returnM ()
          else
            bindM (if \<not> in_deps then (\<lambda>st. (Ok (), st\<lparr>deps := deps st @ [dep]\<rparr>))
                   else returnM ()) (\<lambda>_.
              if \<not> in_deps_per_file
              then
                bindM (deps_per_file_at file) (\<lambda>v.
                  (\<lambda>st. (Ok (), st\<lparr>deps_per_file := (deps_per_file st)(file \<mapsto> v @ [dep])\<rparr>)))
              else returnM ()))))))"

text \<open>
  The body of the loop of \<^verbatim>\<open>collectDependencies\<close> over the collected lines.
  \<^verbatim>\<open>line.substr(1, line.rfind(" (") - 1)\<close>: with no \<^verbatim>\<open>" ("\<close>, or one at position \<open>0\<close>,
  the count wraps around and the rest of the line is taken.
\<close>

definition dep_path_of :: "string \<Rightarrow> string" where
  "dep_path_of line =
     (case str_rfind line '' ('' of
        None \<Rightarrow> drop 1 line
      | Some i \<Rightarrow> if i = 0 then drop 1 line else take (i - 1) (drop 1 line))"

definition collectDependencies_line :: "env \<Rightarrow> string \<Rightarrow> string \<Rightarrow> state \<Rightarrow> unit res \<times> state" where
  "collectDependencies_line e file line =
     (if line = [] \<or> hd line \<noteq> CHR 0x09 then returnM ()
      else if str_contains line ''.framework'' then returnM ()
      else if isSystemLibrary (dep_path_of line) then returnM ()
      else addDependency e (dep_path_of line) file)"

definition collectDependencies :: "env \<Rightarrow> string \<Rightarrow> state \<Rightarrow> unit res \<times> state" where
  "collectDependencies e file st =
     (if deps_collected st file \<noteq> None then (Ok (), st)
      else
        bindM (liftG (collectRpaths e file)) (\<lambda>_.
        bindM (liftG (collectDependencies_lines e file)) (\<lambda>lines.
        bindM (forM lines (collectDependencies_line e file)) (\<lambda>_.
          (\<lambda>st. (Ok (), st\<lparr>deps_collected := (deps_collected st)(file \<mapsto> True)\<rparr>))))) st)"

text \<open>
  One pass of the \<^verbatim>\<open>while (true)\<close> loop of \<^verbatim>\<open>collectSubDependencies\<close>: the \<^verbatim>\<open>for\<close> loop
  over the first \<open>dep_amount\<close> elements of \<^verbatim>\<open>deps\<close>, read as they are when their turn
  comes.
\<close>

definition subdeps_step :: "env \<Rightarrow> nat \<Rightarrow> state \<Rightarrow> unit res \<times> state" where
  "subdeps_step e n st =
     (if n < length (deps st)
      then
        (let original_path = getOriginalPath (deps st ! n) in
         bindM (if isRpath original_path
                then liftG (searchFilenameInRpaths e original_path original_path)
                else returnM original_path) (\<lambda>original_path.
           collectDependencies e original_path) st)
      else (Crash, st))"

definition subdeps_pass :: "env \<Rightarrow> state \<Rightarrow> unit res \<times> state" where
  "subdeps_pass e st = forM [0..<length (deps st)] (subdeps_step e) st"

text \<open>
  \<^verbatim>\<open>collectSubDependencies\<close>, with a bound on the number of passes: \<open>None\<close> when the
  loop is still running after that many.
\<close>

fun collectSubDependencies :: "nat \<Rightarrow> env \<Rightarrow> state \<Rightarrow> (unit res \<times> state) option" where
  "collectSubDependencies 0 e st = None"
| "collectSubDependencies (Suc passes) e st =
     (case subdeps_pass e st of
        (Ok _, st') \<Rightarrow>
          if length (deps st') = length (deps st) then Some (Ok (), st')
          else collectSubDependencies passes e st'
      | (Exit n, st') \<Rightarrow> Some (Exit n, st')
      | (Crash, st') \<Rightarrow> Some (Crash, st')
      | (Hang, st') \<Rightarrow> Some (Hang, st'))"

definition changeLibPathsOnFile :: "env \<Rightarrow> string \<Rightarrow> state \<Rightarrow> unit res \<times> state" where
  "changeLibPathsOnFile e file_to_fix =
     bindM (\<lambda>st. if deps_collected st file_to_fix = None
                 then collectDependencies e file_to_fix st else (Ok (), st)) (\<lambda>_.
     bindM (deps_per_file_at file_to_fix) (\<lambda>deps_in_file.
       forM deps_in_file (\<lambda>d. liftG (fixFileThatDependsOnMe e d file_to_fix))))"

subsection \<open>Invariants of a computation\<close>

text \<open>
  \<open>preserves P m\<close>: however \<open>m\<close> ends, it leaves a state with \<open>P\<close> when it starts in one.
\<close>

definition preserves :: "('s \<Rightarrow> bool) \<Rightarrow> ('s \<Rightarrow> 'a res \<times> 's) \<Rightarrow> bool" where
  "preserves P m = (\<forall>s. P s \<longrightarrow> P (snd (m s)))"

text \<open>
  \<open>preserves_on_return P m\<close>: the same, for the runs of \<open>m\<close> that return.
\<close>

definition preserves_on_return :: "('s \<Rightarrow> bool) \<Rightarrow> ('s \<Rightarrow> 'a res \<times> 's) \<Rightarrow> bool" where
  "preserves_on_return P m = (\<forall>s v s'. P s \<longrightarrow> m s = (Ok v, s') \<longrightarrow> P s')"

text \<open>
  \<open>stable P\<close>: \<open>P\<close> survives what the resolution of a reference does to the globals:
  a message, a new search path, raising \<^verbatim>\<open>missing_prefixes\<close>, reading input, and writing
  the two rpath tables.
\<close>

definition stable :: "(globals \<Rightarrow> bool) \<Rightarrow> bool" where
  "stable P =
     (\<forall>g. P g \<longrightarrow>
        (\<forall>d. P (g\<lparr>cerr := cerr g @ [d]\<rparr>)) \<and>
        (\<forall>p. P (g\<lparr>searchPaths := searchPaths g @ [p]\<rparr>)) \<and>
        P (g\<lparr>missing_prefixes := True\<rparr>) \<and>
        (\<forall>ts. P (g\<lparr>cin := ts\<rparr>)) \<and>
        (\<forall>m. P (g\<lparr>rpath_to_fullpath := m\<rparr>)) \<and>
        (\<forall>m. P (g\<lparr>rpaths_per_file := m\<rparr>)))"

text \<open>
  What \<^verbatim>\<open>addDependency\<close> does to the tables once the \<^verbatim>\<open>Dependency\<close> is constructed;
  \<open>bundled\<close> is the answer of \<^verbatim>\<open>isPrefixBundled\<close> for its prefix.
\<close>

definition graph_add :: "Dependency \<Rightarrow> string \<Rightarrow> bool \<Rightarrow> state \<Rightarrow> state" where
  "graph_add dep file bundled st =
     (let v = (case deps_per_file st file of None \<Rightarrow> [] | Some v \<Rightarrow> v) in
      st\<lparr>deps :=
           (if bundled \<and> \<not> fst (merge_into dep (deps st))
            then snd (merge_into dep (deps st)) @ [dep]
            else snd (merge_into dep (deps st))),
         deps_per_file :=
           (deps_per_file st)(file \<mapsto>
              (if bundled \<and> \<not> fst (merge_into dep v) then v @ [dep] else v))\<rparr>)"

text \<open>
  For the statements about merging: the state after two calls of \<^verbatim>\<open>addDependency\<close>,
  the aliases \<^verbatim>\<open>deps\<close> records for a leaf file name, and an entry of \<^verbatim>\<open>deps\<close> with its
  aliases as a set.
\<close>

definition add_both :: "env \<Rightarrow> string \<Rightarrow> string \<Rightarrow> string \<Rightarrow> string \<Rightarrow> state \<Rightarrow> state" where
  "add_both e p1 f1 p2 f2 st = snd (addDependency e p2 f2 (snd (addDependency e p1 f1 st)))"

definition aliases_of :: "string \<Rightarrow> Dependency list \<Rightarrow> string set" where
  "aliases_of n ds = \<Union> (set ` symlinks ` {d \<in> set ds. filename d = n})"

definition entry_view :: "Dependency \<Rightarrow> string \<times> string \<times> string \<times> string set" where
  "entry_view d = (filename d, prefix d, new_name d, set (symlinks d))"

text \<open>
  No entry of \<^verbatim>\<open>deps\<close> is a library of the system or of a framework: neither its
  original path nor any of its aliases begins with a system prefix, and neither its
  directory nor any of its aliases contains \<^verbatim>\<open>.framework\<close>.
\<close>

definition no_system_refs :: "Dependency list \<Rightarrow> bool" where
  "no_system_refs ds =
     list_all (\<lambda>d. \<not> isSystemLibrary (getOriginalPath d)
                   \<and> \<not> str_contains (prefix d) ''.framework''
                   \<and> list_all (\<lambda>s. \<not> isSystemLibrary s \<and> \<not> str_contains s ''.framework'')
                         (symlinks d)) ds"

text \<open>The lines \<^verbatim>\<open>collectDependencies\<close> passes over.\<close>

definition skipped_line :: "string \<Rightarrow> bool" where
  "skipped_line line =
     (str_contains line ''.framework'' \<or> isSystemLibrary (dep_path_of line))"

text \<open>
  Every file with a list in \<^verbatim>\<open>deps_per_file\<close> has been inspected; and the same while
  the file \<open>fl\<close> is being inspected.
\<close>

definition listed_are_inspected :: "state \<Rightarrow> bool" where
  "listed_are_inspected st = (dom (deps_per_file st) \<subseteq> dom (deps_collected st))"

definition listed_are_inspected_but :: "string \<Rightarrow> state \<Rightarrow> bool" where
  "listed_are_inspected_but fl st =
     (dom (deps_per_file st) \<subseteq> insert fl (dom (deps_collected st)))"

text \<open>
  The two preconditions of the statements about a reference.  \<open>resolves_to\<close>: the
  constructor of \<^verbatim>\<open>Dependency\<close>, called in the state \<open>st\<close>, takes \<open>c\<close> as the original
  file of the reference.  \<open>prefix_undetermined\<close>: the constructor finds the directory
  of the original file one to bundle (line 212) and the library not in it (line 216), so
  that it has to look for the library.
\<close>

definition resolves_to :: "env \<Rightarrow> string \<Rightarrow> string \<Rightarrow> state \<Rightarrow> string \<Rightarrow> bool" where
  "resolves_to e path fl st c = (fst (Dependency_resolve e (rtrim path) fl (glob st)) = Ok c)"

definition prefix_undetermined :: "env \<Rightarrow> string \<Rightarrow> string \<Rightarrow> globals \<Rightarrow> bool" where
  "prefix_undetermined e path fl g =
     (case Dependency_resolve e (rtrim path) fl g of
        (Ok original_file, g1) \<Rightarrow>
          isPrefixBundled g1 (add_slash (dirPrefix original_file))
          \<and> fst (location_unknown e (add_slash (dirPrefix original_file))
                    (stripPrefix original_file) g1) = Ok True
      | (Exit n, g1) \<Rightarrow> False
      | (Crash, g1) \<Rightarrow> False
      | (Hang, g1) \<Rightarrow> False)"

text \<open>
  The operations that can follow the resolution of a reference: further references,
  inspections, passes of the expansion, the preparation of the destination directory,
  copies, and rewrites.  \<open>after e ops st\<close> is the state once the operations \<open>ops\<close> have
  been performed from the state \<open>st\<close>, in this order, however each of them ended.
\<close>

datatype operation =
    AddDependency string string
  | CollectDependencies string
  | SubdepsPass
  | CreateDestDir
  | CopyYourself Dependency
  | CopyFile string string
  | ChangeLibPathsOnFile string

fun perform :: "env \<Rightarrow> operation \<Rightarrow> state \<Rightarrow> unit res \<times> state" where
  "perform e (AddDependency path fl) = addDependency e path fl"
| "perform e (CollectDependencies fl) = collectDependencies e fl"
| "perform e SubdepsPass = subdeps_pass e"
| "perform e CreateDestDir = liftG (createDestDir e)"
| "perform e (CopyYourself d) = liftG (copyYourself e d)"
| "perform e (CopyFile from_f to_f) = liftG (copyFile e from_f to_f)"
| "perform e (ChangeLibPathsOnFile fl) = changeLibPathsOnFile e fl"

definition after :: "env \<Rightarrow> operation list \<Rightarrow> state \<Rightarrow> state" where
  "after e ops st = foldl (\<lambda>s op. snd (perform e op s)) st ops"

text \<open>No entry of \<^verbatim>\<open>deps\<close> has an ignored prefix as its directory.\<close>

definition no_ignored_entries :: "state \<Rightarrow> bool" where
  "no_ignored_entries st = list_all (\<lambda>d. \<not> isPrefixIgnored (glob st) (prefix d)) (deps st)"

text \<open>
  The state after \<open>k\<close> passes of the expansion that have all returned, whether or not
  the loop would have stopped in between; and the assumption of a finite graph: the
  leaf file names of the dependencies known after at most \<open>card F\<close> passes are all in
  \<open>F\<close>.
\<close>

fun passes :: "nat \<Rightarrow> env \<Rightarrow> state \<Rightarrow> state option" where
  "passes 0 e st = Some st"
| "passes (Suc k) e st =
     (case subdeps_pass e st of
        (Ok _, st') \<Rightarrow> passes k e st'
      | (Exit n, st') \<Rightarrow> None
      | (Crash, st') \<Rightarrow> None
      | (Hang, st') \<Rightarrow> None)"

definition leafs_within :: "string set \<Rightarrow> env \<Rightarrow> state \<Rightarrow> bool" where
  "leafs_within F e st =
     (\<forall>k \<le> card F. \<forall>st'. passes k e st = Some st' \<longrightarrow> filename ` set (deps st') \<subseteq> F)"

text \<open>
  The assumption that the inspector answers and nothing has to be asked: each of these
  passes returns.
\<close>

definition passes_return :: "string set \<Rightarrow> env \<Rightarrow> state \<Rightarrow> bool" where
  "passes_return F e st =
     (\<forall>k \<le> card F. \<forall>st'. passes k e st = Some st' \<longrightarrow> fst (subdeps_pass e st') = Ok ())"

section \<open>Example runs\<close>

text \<open>Nothing exists but the default destination directory; every command succeeds.\<close>

definition env_dest_exists :: env where
  "env_dest_exists =
     \<lparr>realpath = (\<lambda>p. None), access = (\<lambda>p. p = ''./libs/''),
      system_get_output = (\<lambda>c. []), system = (\<lambda>c. 0), getenv = (\<lambda>v. None)\<rparr>"

text \<open>No file exists at all.\<close>

definition env_nothing :: env where
  "env_nothing =
     \<lparr>realpath = (\<lambda>p. None), access = (\<lambda>p. False),
      system_get_output = (\<lambda>c. []), system = (\<lambda>c. 0), getenv = (\<lambda>v. None)\<rparr>"

text \<open>A library with one alias.\<close>

definition dep_libX :: Dependency where
  "dep_libX =
     \<lparr>filename = ''libX.dylib'', prefix = ''/opt/lib/'',
      symlinks = [''/opt/lib/libX.1.dylib''], new_name = ''libX.dylib''\<rparr>"

text \<open>
  Two copies of \<^verbatim>\<open>libz.dylib\<close>, one in \<^verbatim>\<open>/custom/ignored/\<close> and one in a directory below
  it, and the state after the option \<^verbatim>\<open>-i /custom/ignored\<close>.
\<close>

definition env_ignored :: env where
  "env_ignored =
     \<lparr>realpath = (\<lambda>p. if p = ''/custom/ignored/libz.dylib''
                             \<or> p = ''/custom/ignored/sub/libz.dylib'' then Some p else None),
      access = (\<lambda>p. p = ''/custom/ignored/libz.dylib''
                      \<or> p = ''/custom/ignored/sub/libz.dylib''),
      system_get_output = (\<lambda>c. []), system = (\<lambda>c. 0), getenv = (\<lambda>v. None)\<rparr>"

definition state_ignoring :: state where
  "state_ignoring = snd (liftG (ignore_prefix ''/custom/ignored'') (initial_state []))"

text \<open>
  \<^verbatim>\<open>/opt/lib/libz.dylib\<close> and \<^verbatim>\<open>/opt/lib/libz.1.dylib\<close> are symbolic links to a library
  of the system, \<^verbatim>\<open>/usr/lib/libz.1.dylib\<close>.
\<close>

definition env_system_link :: env where
  "env_system_link =
     \<lparr>realpath = (\<lambda>p. if p = ''/opt/lib/libz.dylib'' \<or> p = ''/opt/lib/libz.1.dylib''
                      then Some ''/usr/lib/libz.1.dylib'' else None),
      access = (\<lambda>p. p = ''/opt/lib/libz.dylib'' \<or> p = ''/opt/lib/libz.1.dylib''
                      \<or> p = ''/usr/lib/libz.1.dylib''),
      system_get_output = (\<lambda>c. []), system = (\<lambda>c. 0), getenv = (\<lambda>v. None)\<rparr>"

text \<open>
  The program \<^verbatim>\<open>/app/bin/A\<close> loads \<^verbatim>\<open>/opt/lib/libX.dylib\<close>, the system library (twice)
  and two frameworks; \<^verbatim>\<open>libX\<close> loads the system library only.  \<open>otool_output\<close> lays
  out the load commands as \<^verbatim>\<open>otool -l\<close> prints them.
\<close>

definition load_dylib :: "string \<Rightarrow> string list" where
  "load_dylib name =
     [''Load command'', ''          cmd LC_LOAD_DYLIB'', ''      cmdsize 56'',
      ''         name '' @ name @ '' (offset 24)'']"

definition otool_output :: "string list \<Rightarrow> string" where
  "otool_output names = concat (map (\<lambda>l. l @ [CHR 0x0A]) (concat (map load_dylib names)))"

definition env_app :: env where
  "env_app =
     \<lparr>realpath = (\<lambda>p. if p = ''/opt/lib/libX.dylib'' then Some p else None),
      access = (\<lambda>p. p = ''/app/bin/A'' \<or> p = ''/opt/lib/libX.dylib''),
      system_get_output =
        (\<lambda>c. if c = otool_command ''/app/bin/A''
             then otool_output
                    [''/usr/lib/libSystem.B.dylib'', ''/opt/lib/libX.dylib'',
                     ''/System/Library/Frameworks/Cocoa.framework/Versions/A/Cocoa'',
                     ''/opt/Frameworks/Foo.framework/Foo'', ''/usr/lib/libSystem.B.dylib'']
             else if c = otool_command ''/opt/lib/libX.dylib''
             then otool_output [''/usr/lib/libSystem.B.dylib'']
             else []),
      system = (\<lambda>c. 0), getenv = (\<lambda>v. None)\<rparr>"

text \<open>
  \<^verbatim>\<open>/app/bin/A\<close> has the rpath entries \<^verbatim>\<open>/opt/lib\<close> and \<^verbatim>\<open>@loader_path/../lib\<close>, in this
  order, and loads \<^verbatim>\<open>@rpath/libY.dylib\<close>.  Both \<^verbatim>\<open>/opt/lib/libY.dylib\<close> and
  \<^verbatim>\<open>/app/lib/libY.dylib\<close> exist.
\<close>

definition rpath_command :: "string \<Rightarrow> string list" where
  "rpath_command path =
     [''Load command'', ''          cmd LC_RPATH'', ''      cmdsize 32'',
      ''         path '' @ path @ '' (offset 12)'']"

definition env_rpath :: env where
  "env_rpath =
     \<lparr>realpath = (\<lambda>p. if p = ''/opt/lib/libY.dylib'' then Some ''/opt/lib/libY.dylib''
                      else if p = ''/app/bin/../lib/libY.dylib'' \<or> p = ''/app/lib/libY.dylib''
                      then Some ''/app/lib/libY.dylib'' else None),
      access = (\<lambda>p. p = ''/app/bin/A'' \<or> p = ''/opt/lib/libY.dylib''
                      \<or> p = ''/app/lib/libY.dylib'' \<or> p = ''/app/bin/../lib/libY.dylib''),
      system_get_output =
        (\<lambda>c. if c = otool_command ''/app/bin/A''
             then concat (map (\<lambda>l. l @ [CHR 0x0A])
                    (rpath_command ''/opt/lib'' @ rpath_command ''@loader_path/../lib''
                     @ load_dylib ''@rpath/libY.dylib''))
             else []),
      system = (\<lambda>c. 0), getenv = (\<lambda>v. None)\<rparr>"

text \<open>
  \<^verbatim>\<open>/app/bin/A\<close> loads \<^verbatim>\<open>/opt/lib/libX.dylib\<close>, which loads \<^verbatim>\<open>/opt/lib/libmissing.dylib\<close>,
  a file that does not exist anywhere.
\<close>

definition env_missing :: env where
  "env_missing =
     \<lparr>realpath = (\<lambda>p. if p = ''/opt/lib/libX.dylib'' then Some p else None),
      access = (\<lambda>p. p = ''/app/bin/A'' \<or> p = ''/opt/lib/libX.dylib''),
      system_get_output =
        (\<lambda>c. if c = otool_command ''/app/bin/A''
             then otool_output [''/opt/lib/libX.dylib'']
             else if c = otool_command ''/opt/lib/libX.dylib''
             then otool_output [''/opt/lib/libmissing.dylib'']
             else []),
      system = (\<lambda>c. 0), getenv = (\<lambda>v. None)\<rparr>"

text \<open>\<^verbatim>\<open>libX.dylib\<close> exists in \<^verbatim>\<open>/first/\<close> and in \<^verbatim>\<open>/second/\<close>.\<close>

definition env_two_paths :: env where
  "env_two_paths =
     \<lparr>realpath = (\<lambda>p. None),
      access = (\<lambda>p. p = ''/first/libX.dylib'' \<or> p = ''/second/libX.dylib''),
      system_get_output = (\<lambda>c. []), system = (\<lambda>c. 0), getenv = (\<lambda>v. None)\<rparr>"

text \<open>
  \<^verbatim>\<open>/app/bin/A\<close> loads \<^verbatim>\<open>libX\<close>, \<^verbatim>\<open>libX\<close> loads the system library and \<^verbatim>\<open>libY\<close>, and \<^verbatim>\<open>libY\<close>
  loads \<^verbatim>\<open>libX\<close>: a cycle.
\<close>

definition env_cycle :: env where
  "env_cycle =
     \<lparr>realpath = (\<lambda>p. if p = ''/opt/lib/libX.dylib'' \<or> p = ''/opt/lib/libY.dylib''
                      then Some p else None),
      access = (\<lambda>p. p = ''/app/bin/A'' \<or> p = ''/opt/lib/libX.dylib''
                      \<or> p = ''/opt/lib/libY.dylib''),
      system_get_output =
        (\<lambda>c. if c = otool_command ''/app/bin/A''
             then otool_output [''/opt/lib/libX.dylib'']
             else if c = otool_command ''/opt/lib/libX.dylib''
             then otool_output [''/usr/lib/libSystem.B.dylib'', ''/opt/lib/libY.dylib'']
             else if c = otool_command ''/opt/lib/libY.dylib''
             then otool_output [''/opt/lib/libX.dylib'']
             else []),
      system = (\<lambda>c. 0), getenv = (\<lambda>v. None)\<rparr>"

text \<open>
  \<^verbatim>\<open>/app/lib/libz.dylib\<close> exists; from a file in \<^verbatim>\<open>/app/bin/\<close> it is also
  \<^verbatim>\<open>@loader_path/../lib/libz.dylib\<close>.
\<close>

definition env_loader :: env where
  "env_loader =
     \<lparr>realpath = (\<lambda>p. if p = ''/app/bin/../lib/libz.dylib'' \<or> p = ''/app/lib/libz.dylib''
                      then Some ''/app/lib/libz.dylib'' else None),
      access = (\<lambda>p. p = ''/app/bin/../lib/libz.dylib'' \<or> p = ''/app/lib/libz.dylib''),
      system_get_output = (\<lambda>c. []), system = (\<lambda>c. 0), getenv = (\<lambda>v. None)\<rparr>"

text \<open>The state after the options \<^verbatim>\<open>-s /none/ -s /first/ -s /second/\<close>.\<close>

definition state_two_paths :: state where
  "state_two_paths =
     snd (forM [''/none/'', ''/first/'', ''/second/''] (\<lambda>p. liftG (addSearchPath p))
            (initial_state []))"

section \<open>Lemmas\<close>

subsection \<open>Sequencing\<close>


lemmas monad_defs =
  bindM_def returnM_def getsM_def pureM_def die_def warn_def systemp_def if_distribR

lemma fileExists_cases:
  "fileExists e p = Ok True \<or> fileExists e p = Ok False \<or> fileExists e p = Crash"
  by (simp add: fileExists_def Let_def split: option.splits)

lemma bindM_Ok_elim:
  assumes "bindM m f s = (Ok b, s'')"
  obtains a s' where "m s = (Ok a, s')" and "f a s' = (Ok b, s'')"
  using assms by (auto simp: bindM_def split: prod.splits res.splits)

lemma bindM_Ok_intro: "m s = (Ok a, s') \<Longrightarrow> bindM m f s = f a s'"
  by (simp add: bindM_def)

subsection \<open>Rules for invariants\<close>

lemma preservesI: "(\<And>s. P s \<Longrightarrow> P (snd (m s))) \<Longrightarrow> preserves P m"
  by (simp add: preserves_def)

lemma preservesD: "preserves P m \<Longrightarrow> P s \<Longrightarrow> P (snd (m s))"
  by (simp add: preserves_def)

lemma preserves_returnM [intro!, simp]: "preserves P (returnM v)"
  by (simp add: preserves_def returnM_def)

lemma preserves_getsM [intro!, simp]: "preserves P (getsM h)"
  by (simp add: preserves_def getsM_def)

lemma preserves_pureM [intro!, simp]: "preserves P (pureM r)"
  by (simp add: preserves_def pureM_def)

lemma preserves_bindM [intro!]:
  assumes "preserves P m" and "\<And>a. preserves P (f a)"
  shows "preserves P (bindM m f)"
proof (rule preservesI)
  fix s assume P: "P s"
  obtain r s' where ms: "m s = (r, s')" by (cases "m s")
  with assms(1) P have P': "P s'" by (auto dest: preservesD)
  show "P (snd (bindM m f s))"
  proof (cases r)
    case (Ok a)
    with ms have "bindM m f s = f a s'" by (simp add: bindM_def)
    with assms(2) [of a] P' show ?thesis by (auto dest: preservesD)
  qed (use ms P' in \<open>simp_all add: bindM_def\<close>)
qed

lemma preserves_if [intro!]:
  "(c \<Longrightarrow> preserves P a) \<Longrightarrow> (\<not> c \<Longrightarrow> preserves P b) \<Longrightarrow> preserves P (if c then a else b)"
  by simp

lemma preserves_case_option [intro!]:
  "(x = None \<Longrightarrow> preserves P a) \<Longrightarrow> (\<And>v. x = Some v \<Longrightarrow> preserves P (f v))
   \<Longrightarrow> preserves P (case x of None \<Rightarrow> a | Some v \<Rightarrow> f v)"
  by (cases x) simp_all

lemma preserves_forM [intro!]:
  "(\<And>x. x \<in> set xs \<Longrightarrow> preserves P (f x)) \<Longrightarrow> preserves P (forM xs f)"
  by (induction xs) auto

lemma preserves_update:
  "(\<And>s. P s \<Longrightarrow> P (u s)) \<Longrightarrow> preserves P (\<lambda>s. (r s, u s))"
  by (simp add: preserves_def)

lemma preserves_liftG:
  "preserves P m \<Longrightarrow> preserves (\<lambda>st. P (glob st)) (liftG m)"
  by (auto simp: preserves_def liftG_def split: prod.splits dest: spec [of _ "glob _"])

lemma preserves_liftG_frame:
  "(\<And>st g. Q (st\<lparr>glob := g\<rparr>) = Q st) \<Longrightarrow> preserves Q (liftG m)"
  by (auto simp: preserves_def liftG_def split: prod.splits)


subsection \<open>What resolution does to the globals\<close>

lemma stable_warn: "stable P \<Longrightarrow> preserves P (warn d)"
  by (simp add: stable_def preserves_def warn_def)

lemma stable_die: "stable P \<Longrightarrow> preserves P (die d)"
  by (simp add: stable_def preserves_def die_def)

lemma stable_addSearchPath: "stable P \<Longrightarrow> preserves P (addSearchPath p)"
  by (simp add: stable_def preserves_def addSearchPath_def)

lemma preserves_first_existing: "preserves P (first_existing e cand ps)"
  by (induction ps) auto

lemma stable_prompt_loop: "stable P \<Longrightarrow> preserves P (prompt_loop e file toks)"
proof (induction toks)
  case Nil
  then show ?case by (auto intro!: stable_warn stable_addSearchPath)
next
  case (Cons tok toks)
  have "preserves P (\<lambda>g. (Ok (), g\<lparr>cin := toks\<rparr>))"
    using Cons.prems by (simp add: stable_def preserves_def)
  with Cons show ?case
    by (auto intro!: stable_warn stable_addSearchPath)
qed

lemma stable_getUserInputDirForFile:
  "stable P \<Longrightarrow> preserves P (getUserInputDirForFile e file)"
  unfolding getUserInputDirForFile_def
  by (auto intro!: stable_warn stable_prompt_loop preserves_first_existing)

lemma stable_initSearchPaths: "stable P \<Longrightarrow> preserves P (initSearchPaths e)"
  unfolding initSearchPaths_def Let_def
  by (auto intro!: stable_addSearchPath)

lemma stable_check_path: "stable P \<Longrightarrow> preserves P (check_path e rf df path)"
  unfolding check_path_def Let_def
  by (auto intro!: preserves_update simp: stable_def)

lemma stable_rpaths_at: "stable P \<Longrightarrow> preserves P (rpaths_at file)"
  by (auto simp: preserves_def rpaths_at_def stable_def split: option.splits)

lemma stable_rpath_loop: "stable P \<Longrightarrow> preserves P (rpath_loop e rf df suffix rpaths)"
  by (induction rpaths) (auto intro!: stable_check_path)

lemma stable_searchFilenameInRpaths:
  "stable P \<Longrightarrow> preserves P (searchFilenameInRpaths e rf df)"
  unfolding searchFilenameInRpaths_def Let_def
  by (auto intro!: stable_check_path stable_rpaths_at stable_rpath_loop stable_warn
      stable_getUserInputDirForFile preserves_first_existing)

lemma stable_Dependency_resolve: "stable P \<Longrightarrow> preserves P (Dependency_resolve e path df)"
  unfolding Dependency_resolve_def
  by (auto intro!: stable_searchFilenameInRpaths stable_warn)

lemma preserves_location_unknown: "preserves P (location_unknown e pfx file)"
  unfolding location_unknown_def by auto

lemma stable_Dependency_locate: "stable P \<Longrightarrow> preserves P (Dependency_locate e file pfx)"
  unfolding Dependency_locate_def
  by (auto intro!: preserves_location_unknown stable_initSearchPaths preserves_first_existing
      stable_warn stable_getUserInputDirForFile stable_addSearchPath preserves_update
      simp: stable_def)

lemma stable_Dependency_ctor: "stable P \<Longrightarrow> preserves P (Dependency_ctor e path df)"
  unfolding Dependency_ctor_def Let_def
  by (auto intro!: stable_Dependency_resolve stable_Dependency_locate)

lemma stable_collectRpaths: "stable P \<Longrightarrow> preserves P (collectRpaths e file)"
  unfolding collectRpaths_def
  by (auto intro!: stable_warn stable_rpaths_at preserves_update simp: stable_def)

lemma stable_collectDependencies_lines:
  "stable P \<Longrightarrow> preserves P (collectDependencies_lines e file)"
  unfolding collectDependencies_lines_def Let_def
  by (auto intro!: stable_die)


lemma rtrim_idem [simp]: "rtrim (rtrim s) = rtrim s"
  by (simp add: rtrim_def)

lemma cerr_member_stable: "stable (\<lambda>g. x \<in> set (cerr g))"
  by (simp add: stable_def)

lemma missing_prefixes_stable: "stable missing_prefixes"
  by (simp add: stable_def)

subsection \<open>Rewriting references\<close>

lemma changeInstallName_eq:
  "changeInstallName e file old inner g =
     (if system e (change_command file old inner) \<noteq> 0
      then (Exit 1, g\<lparr>cmds := cmds g @ [change_command file old inner],
                      cerr := cerr g @ [ChangeInstallNameFailed file]\<rparr>)
      else (Ok (), g\<lparr>cmds := cmds g @ [change_command file old inner]\<rparr>))"
  by (simp add: changeInstallName_def monad_defs)

lemma forM_changeInstallName_ok:
  "list_all (\<lambda>old. system e (change_command file old inner) = 0) olds \<Longrightarrow>
   forM olds (\<lambda>old. changeInstallName e file old inner) g =
     (Ok (), g\<lparr>cmds := cmds g @ map (\<lambda>old. change_command file old inner) olds\<rparr>)"
proof (induction olds arbitrary: g)
  case Nil
  then show ?case by (simp add: returnM_def)
next
  case (Cons old olds)
  then show ?case by (simp add: changeInstallName_eq bindM_def)
qed

lemma cmds_extended_changeInstallName:
  "preserves (\<lambda>g. \<exists>rest. cmds g = pre @ rest) (changeInstallName e file old inner)"
  by (auto simp: preserves_def changeInstallName_eq)

lemma flag_changeInstallName:
  "preserves (\<lambda>g. missing_prefixes g = b) (changeInstallName e file old inner)"
  by (auto simp: preserves_def changeInstallName_eq)

lemma flag_fixFileThatDependsOnMe:
  "preserves (\<lambda>g. missing_prefixes g = b) (fixFileThatDependsOnMe e d file)"
  unfolding fixFileThatDependsOnMe_def
  by (auto intro!: flag_changeInstallName)


subsection \<open>The tables\<close>

lemma addDependency_eq:
  "addDependency e path file st =
     (case Dependency_ctor e path file (glob st) of
        (Ok dep, g) \<Rightarrow>
          (Ok (), graph_add dep file (isPrefixBundled g (prefix dep)) (st\<lparr>glob := g\<rparr>))
      | (Exit n, g) \<Rightarrow> (Exit n, st\<lparr>glob := g\<rparr>)
      | (Crash, g) \<Rightarrow> (Crash, st\<lparr>glob := g\<rparr>)
      | (Hang, g) \<Rightarrow> (Hang, st\<lparr>glob := g\<rparr>))"
  by (auto simp: addDependency_def graph_add_def liftG_def deps_per_file_at_def Let_def
      bindM_def returnM_def getsM_def if_distribR map_upd_triv
      split: prod.splits res.splits option.splits)

lemma glob_graph_add [simp]: "glob (graph_add dep file b st) = glob st"
  by (simp add: graph_add_def Let_def)

lemma deps_collected_graph_add [simp]:
  "deps_collected (graph_add dep file b st) = deps_collected st"
  by (simp add: graph_add_def Let_def)

lemma glob_addDependency:
  assumes "stable P"
  shows "preserves (\<lambda>st. P (glob st)) (addDependency e path file)"
proof (rule preservesI)
  fix st :: state assume "P (glob st)"
  with stable_Dependency_ctor [OF assms, of e path "file"]
  have "P (snd (Dependency_ctor e path file (glob st)))" by (rule preservesD)
  then show "P (glob (snd (addDependency e path file st)))"
    by (auto simp: addDependency_eq split: prod.splits res.splits)
qed

lemma glob_collectDependencies_line:
  "stable P \<Longrightarrow> preserves (\<lambda>st. P (glob st)) (collectDependencies_line e file line)"
  unfolding collectDependencies_line_def by (auto intro!: glob_addDependency)

lemma glob_collectDependencies:
  assumes "stable P"
  shows "preserves (\<lambda>st. P (glob st)) (collectDependencies e file)"
proof -
  have "preserves (\<lambda>st. P (glob st))
          (bindM (liftG (collectRpaths e file)) (\<lambda>_.
           bindM (liftG (collectDependencies_lines e file)) (\<lambda>lines.
           bindM (forM lines (collectDependencies_line e file)) (\<lambda>_.
             (\<lambda>st. (Ok (), st\<lparr>deps_collected := (deps_collected st)(file \<mapsto> True)\<rparr>))))))"
    using assms
    by (auto intro!: preserves_liftG stable_collectRpaths stable_collectDependencies_lines
        glob_collectDependencies_line preserves_update)
  then show ?thesis
    by (auto simp: preserves_def collectDependencies_def)
qed

lemma glob_subdeps_step:
  assumes "stable P"
  shows "preserves (\<lambda>st. P (glob st)) (subdeps_step e n)"
proof (rule preservesI)
  fix st :: state assume P: "P (glob st)"
  show "P (glob (snd (subdeps_step e n st)))"
  proof (cases "n < length (deps st)")
    case True
    let ?p = "getOriginalPath (deps st ! n)"
    have "preserves (\<lambda>st. P (glob st))
            (bindM (if isRpath ?p then liftG (searchFilenameInRpaths e ?p ?p) else returnM ?p)
               (\<lambda>original_path. collectDependencies e original_path))"
      using assms
      by (auto intro!: preserves_liftG stable_searchFilenameInRpaths glob_collectDependencies)
    from preservesD [OF this P] True show ?thesis
      by (simp add: subdeps_step_def Let_def)
  next
    case False
    with P show ?thesis by (simp add: subdeps_step_def)
  qed
qed

lemma glob_subdeps_pass:
  assumes "stable P"
  shows "preserves (\<lambda>st. P (glob st)) (subdeps_pass e)"
proof (rule preservesI)
  fix st :: state assume P: "P (glob st)"
  have "preserves (\<lambda>st. P (glob st)) (forM [0..<length (deps st)] (subdeps_step e))"
    using assms by (auto intro!: glob_subdeps_step)
  from preservesD [OF this P] show "P (glob (snd (subdeps_pass e st)))"
    by (simp add: subdeps_pass_def)
qed

lemma glob_collectSubDependencies:
  assumes "stable P"
  shows "collectSubDependencies k e st = Some (r, st') \<Longrightarrow> P (glob st) \<Longrightarrow> P (glob st')"
proof (induction k arbitrary: st)
  case 0
  then show ?case by simp
next
  case (Suc k)
  obtain r1 st1 where p: "subdeps_pass e st = (r1, st1)" by (cases "subdeps_pass e st")
  have P1: "P (glob st1)"
    using preservesD [OF glob_subdeps_pass [OF assms], of st e] Suc.prems(2) p by simp
  show ?case
  proof (cases r1)
    case (Ok u)
    with Suc p P1 show ?thesis by (auto split: if_splits)
  qed (use Suc.prems p P1 in auto)
qed

subsection \<open>Strings\<close>

lemma starts_with_Nil [simp]: "starts_with [] s"
  by (simp add: starts_with_def)

lemma starts_with_append_iff: "starts_with pat s \<longleftrightarrow> (\<exists>r. s = pat @ r)"
  unfolding starts_with_def
  by (metis append_eq_conv_conj append_take_drop_id)

lemma find_at_None: "find_at pat s i = None \<longleftrightarrow> (\<forall>j. \<not> starts_with pat (drop j s))"
proof (induction s arbitrary: i)
  case Nil
  then show ?case by (auto simp: starts_with_def)
next
  case (Cons c cs)
  show ?case
  proof (cases "starts_with pat (c # cs)")
    case True
    then have "starts_with pat (drop 0 (c # cs))" by simp
    with True show ?thesis by (metis find_at.simps(2) option.distinct(1))
  next
    case False
    have "(\<forall>j. \<not> starts_with pat (drop j (c # cs))) \<longleftrightarrow> (\<forall>j. \<not> starts_with pat (drop j cs))"
    proof
      assume a: "\<forall>j. \<not> starts_with pat (drop j (c # cs))"
      show "\<forall>j. \<not> starts_with pat (drop j cs)"
      proof
        fix j from a have "\<not> starts_with pat (drop (Suc j) (c # cs))" by blast
        then show "\<not> starts_with pat (drop j cs)" by simp
      qed
    next
      assume a: "\<forall>j. \<not> starts_with pat (drop j cs)"
      show "\<forall>j. \<not> starts_with pat (drop j (c # cs))"
      proof
        fix j show "\<not> starts_with pat (drop j (c # cs))"
          using a False by (cases j) auto
      qed
    qed
    with False Cons show ?thesis by simp
  qed
qed

lemma str_contains_iff: "str_contains s pat \<longleftrightarrow> (\<exists>j. starts_with pat (drop j s))"
  by (simp add: str_contains_def str_find_def find_at_None)

lemma find_at_ge: "find_at pat s i = Some j \<Longrightarrow> i \<le> j"
  by (induction s arbitrary: i) (auto split: if_splits dest: Suc_leD)

lemma find_at_first: "find_at pat s i = Some i \<longleftrightarrow> starts_with pat s"
proof (cases s)
  case Nil
  then show ?thesis by (auto simp: starts_with_def)
next
  case (Cons c cs)
  then show ?thesis using find_at_ge [of pat cs "Suc i" i] by auto
qed

lemma str_find_0_iff: "str_find s pat = Some 0 \<longleftrightarrow> starts_with pat s"
  by (simp add: str_find_def find_at_first)

lemma str_contains_drop: "str_contains (drop k s) pat \<Longrightarrow> str_contains s pat"
  by (auto simp: str_contains_iff)

lemma starts_with_take: "starts_with pat (take k s) \<Longrightarrow> starts_with pat s"
  unfolding starts_with_append_iff
  by (metis append.assoc append_take_drop_id)

lemma str_contains_take: "str_contains (take k s) pat \<Longrightarrow> str_contains s pat"
proof -
  assume "str_contains (take k s) pat"
  then obtain j where "starts_with pat (drop j (take k s))" by (auto simp: str_contains_iff)
  then have "starts_with pat (take (k - j) (drop j s))" by (simp add: drop_take)
  then have "starts_with pat (drop j s)" by (rule starts_with_take)
  then show ?thesis by (auto simp: str_contains_iff)
qed

lemma rtrim_is_take: "\<exists>k. rtrim s = take k s"
proof -
  have "dropWhile isspace (rev s) = drop (length (takeWhile isspace (rev s))) (rev s)"
    by (rule dropWhile_eq_drop)
  then have "rtrim s = rev (drop (length (takeWhile isspace (rev s))) (rev s))"
    by (simp add: rtrim_def)
  also have "\<dots> = take (length s - length (takeWhile isspace (rev s))) s"
    by (simp add: rev_drop)
  finally show ?thesis by blast
qed

lemma isSystemLibrary_iff:
  "isSystemLibrary p \<longleftrightarrow> starts_with ''/usr/lib/'' p \<or> starts_with ''/System/Library/'' p"
  by (simp add: isSystemLibrary_def str_find_0_iff)

lemma isSystemLibrary_rtrim: "isSystemLibrary (rtrim p) \<Longrightarrow> isSystemLibrary p"
  using rtrim_is_take [of p] by (auto simp: isSystemLibrary_iff dest: starts_with_take)

lemma str_contains_rtrim: "str_contains (rtrim p) pat \<Longrightarrow> str_contains p pat"
  using rtrim_is_take [of p] by (auto dest: str_contains_take)

lemma rfind_at_slash:
  "(rfind_at ''/'' s i = None \<longrightarrow> CHR ''/'' \<notin> set s)
   \<and> (\<forall>j. rfind_at ''/'' s i = Some j \<longrightarrow>
         i \<le> j \<and> j - i < length s \<and> s ! (j - i) = CHR ''/'' \<and> CHR ''/'' \<notin> set (drop (Suc (j - i)) s))"
proof (induction s arbitrary: i)
  case Nil
  then show ?case by simp
next
  case (Cons c cs)
  show ?case
  proof (cases "rfind_at ''/'' cs (Suc i)")
    case None
    with Cons [of "Suc i"] have no: "CHR ''/'' \<notin> set cs" by simp
    with None show ?thesis by (auto simp: starts_with_def)
  next
    case (Some j)
    with Cons [of "Suc i"] have j: "Suc i \<le> j" "j - Suc i < length cs"
      "cs ! (j - Suc i) = CHR ''/''" "CHR ''/'' \<notin> set (drop (Suc (j - Suc i)) cs)" by auto
    from j(1) have "j - i = Suc (j - Suc i)" by simp
    with j Some show ?thesis by auto
  qed
qed

lemma stripPrefix_no_slash: "CHR ''/'' \<notin> set (stripPrefix s)"
  using rfind_at_slash [of s 0]
  by (auto simp: stripPrefix_def str_rfind_def split: option.splits)

lemma dirPrefix_stripPrefix: "dirPrefix s @ stripPrefix s = s"
  by (simp add: dirPrefix_def stripPrefix_def split: option.splits)

lemma dirPrefix_last: "dirPrefix s \<noteq> [] \<Longrightarrow> last (dirPrefix s) = CHR ''/''"
proof -
  assume ne: "dirPrefix s \<noteq> []"
  then obtain j where j: "rfind_at ''/'' s 0 = Some j" and d: "dirPrefix s = take (Suc j) s"
    by (auto simp: dirPrefix_def str_rfind_def split: option.splits)
  from j rfind_at_slash [of s 0] have "j < length s" "s ! j = CHR ''/''" by auto
  then have "take (Suc j) s = take j s @ [CHR ''/'']"
    by (simp add: take_Suc_conv_app_nth)
  with d show ?thesis by simp
qed

lemma add_slash_dirPrefix [simp]: "add_slash (dirPrefix s) = dirPrefix s"
  using dirPrefix_last [of s] by (auto simp: add_slash_def)

lemma starts_with_before_leaf:
  assumes "starts_with pat (p @ f)" and "pat \<noteq> []" and "last pat = CHR ''/''"
    and "CHR ''/'' \<notin> set f"
  shows "starts_with pat p"
proof -
  from assms(1) obtain r where r: "p @ f = pat @ r" by (auto simp: starts_with_append_iff)
  have "length pat \<le> length p"
  proof (rule ccontr)
    assume "\<not> length pat \<le> length p"
    then have lt: "length p < length pat" by simp
    from r have "(p @ f) ! (length pat - 1) = (pat @ r) ! (length pat - 1)" by simp
    also have "\<dots> = last pat" using assms(2) by (simp add: nth_append last_conv_nth)
    finally have "(p @ f) ! (length pat - 1) = CHR ''/''" using assms(3) by simp
    moreover have "length p \<le> length pat - 1" using lt by simp
    moreover have "length pat - 1 - length p < length f"
    proof -
      from r have "length p + length f = length pat + length r" by (metis length_append)
      with lt assms(2) show ?thesis by (cases pat) auto
    qed
    ultimately have "f ! (length pat - 1 - length p) = CHR ''/''"
      by (simp add: nth_append)
    with \<open>length pat - 1 - length p < length f\<close> have "CHR ''/'' \<in> set f"
      by (metis nth_mem)
    with assms(4) show False by simp
  qed
  with r have "take (length pat) p = pat"
    by (metis append_eq_append_conv_if append_eq_conv_conj)
  then show ?thesis by (simp add: starts_with_def)
qed

lemma isSystemLibrary_original_path:
  assumes "\<not> isSystemLibrary p" and "CHR ''/'' \<notin> set f"
  shows "\<not> isSystemLibrary (p @ f)"
  using assms starts_with_before_leaf [of "''/usr/lib/''" p f]
    starts_with_before_leaf [of "''/System/Library/''" p f]
  by (auto simp: isSystemLibrary_iff)

subsection \<open>Merging\<close>

lemma addSymlink_fields [simp]:
  "filename (addSymlink s d) = filename d"
  "prefix (addSymlink s d) = prefix d"
  "new_name (addSymlink s d) = new_name d"
  "set (symlinks (addSymlink s d)) = insert s (set (symlinks d))"
  by (auto simp: addSymlink_def)

lemma merge_symlinks_fields [simp]:
  "filename (foldl (\<lambda>d2 s. addSymlink s d2) d syms) = filename d"
  "prefix (foldl (\<lambda>d2 s. addSymlink s d2) d syms) = prefix d"
  "new_name (foldl (\<lambda>d2 s. addSymlink s d2) d syms) = new_name d"
  "set (symlinks (foldl (\<lambda>d2 s. addSymlink s d2) d syms)) = set (symlinks d) \<union> set syms"
  by (induction syms arbitrary: d) auto

lemma fst_merge_into:
  "fst (merge_into dep ds) \<longleftrightarrow> filename dep \<in> filename ` set ds"
  by (induction ds) (auto simp: mergeIfSameAs_def split: prod.splits)

lemma snd_merge_into:
  "snd (merge_into dep ds) =
     map (\<lambda>d. if filename d = filename dep
               then foldl (\<lambda>d2 s. addSymlink s d2) d (symlinks dep) else d) ds"
  by (induction ds) (auto simp: mergeIfSameAs_def split: prod.splits)

lemma merge_into_names [simp]:
  "map filename (snd (merge_into dep ds)) = map filename ds"
  "map prefix (snd (merge_into dep ds)) = map prefix ds"
  "map new_name (snd (merge_into dep ds)) = map new_name ds"
  "map getOriginalPath (snd (merge_into dep ds)) = map getOriginalPath ds"
  by (simp_all add: snd_merge_into getOriginalPath_def)

lemma length_merge_into [simp]: "length (snd (merge_into dep ds)) = length ds"
  by (simp add: snd_merge_into)

subsection \<open>The constructor on a reference that resolves\<close>

lemma Dependency_ctor_not_bundled:
  assumes "\<not> isRpath (rtrim path)" and "realpath e (rtrim path) = Some c"
    and "\<not> isPrefixBundled g (dirPrefix c)"
  shows "Dependency_ctor e path df g =
           (Ok \<lparr>filename = stripPrefix c, prefix = dirPrefix c,
                symlinks = (if c \<noteq> rtrim path then [rtrim path] else []), new_name = []\<rparr>, g)"
  using assms
  by (simp add: Dependency_ctor_def Dependency_resolve_def Let_def bindM_def returnM_def getsM_def)

lemma Dependency_locate_present:
  assumes "pfx \<noteq> []" and "fileExists e (pfx @ f) = Ok True"
  shows "Dependency_locate e f pfx g = (Ok pfx, g)"
  using assms
  by (simp add: Dependency_locate_def location_unknown_def monad_defs)

lemma Dependency_ctor_present:
  assumes "\<not> isRpath (rtrim path)" and "realpath e (rtrim path) = Some c"
    and "isPrefixBundled g (dirPrefix c)" and "dirPrefix c \<noteq> []" and "fileExists e c = Ok True"
  shows "Dependency_ctor e path df g =
           (Ok \<lparr>filename = stripPrefix c, prefix = dirPrefix c,
                symlinks = (if c \<noteq> rtrim path then [rtrim path] else []),
                new_name = stripPrefix c\<rparr>, g)"
proof -
  have "Dependency_locate e (stripPrefix c) (dirPrefix c) g = (Ok (dirPrefix c), g)"
    using assms(4,5) by (intro Dependency_locate_present) (simp_all add: dirPrefix_stripPrefix)
  with assms(1-3) show ?thesis
    by (simp add: Dependency_ctor_def Dependency_resolve_def Let_def bindM_def returnM_def
        getsM_def)
qed

lemmas string_eval =
  str_contains_def str_find_def str_rfind_def starts_with_def isRpath_def isSystemLibrary_def
  stripPrefix_def dirPrefix_def rtrim_def isspace_def add_slash_def

lemma state_ignoring_eq:
  "state_ignoring = (initial_state [])\<lparr>glob := (initial_globals [])\<lparr>prefixes_to_ignore := [''/custom/ignored/'']\<rparr>\<rparr>"
  by (simp add: state_ignoring_def liftG_def ignore_prefix_def initial_state_def initial_globals_def)

lemma isPrefixIgnored_iff: "isPrefixIgnored g p \<longleftrightarrow> p \<in> set (prefixes_to_ignore g)"
  by (auto simp: isPrefixIgnored_def list_ex_iff)

subsection \<open>Adding an entry\<close>

lemma deps_graph_add:
  "deps (graph_add dep fl b st) =
     (if b \<and> filename dep \<notin> filename ` set (deps st)
      then snd (merge_into dep (deps st)) @ [dep]
      else snd (merge_into dep (deps st)))"
  by (simp add: graph_add_def Let_def fst_merge_into)

lemma merge_into_no_match:
  "filename dep \<notin> filename ` set ds \<Longrightarrow> snd (merge_into dep ds) = ds"
  unfolding snd_merge_into by (rule map_idI) (auto simp: image_iff)

lemma distinct_graph_add:
  assumes "distinct (map filename (deps st))"
  shows "distinct (map filename (deps (graph_add dep fl b st)))"
  using assms by (simp add: deps_graph_add)

lemma filter_unique:
  "distinct (map f xs) \<Longrightarrow> n \<in> f ` set xs \<Longrightarrow> length (filter (\<lambda>d. f d = n) xs) = 1"
proof (induction xs)
  case Nil
  then show ?case by simp
next
  case (Cons x xs)
  show ?case
  proof (cases "f x = n")
    case True
    with Cons.prems(1) have "\<forall>y\<in>set xs. f y \<noteq> n" by (metis distinct.simps(2) imageI list.simps(9) set_map)
    then have "filter (\<lambda>d. f d = n) xs = []"
      by (simp add: filter_empty_conv)
    with True show ?thesis by simp
  next
    case False
    with Cons show ?thesis by auto
  qed
qed

lemma aliases_of_Nil [simp]: "aliases_of n [] = {}"
  by (simp add: aliases_of_def)

lemma aliases_of_Cons [simp]:
  "aliases_of n (d # ds) = (if filename d = n then set (symlinks d) else {}) \<union> aliases_of n ds"
  by (auto simp: aliases_of_def)

lemma aliases_of_append [simp]: "aliases_of n (xs @ ys) = aliases_of n xs \<union> aliases_of n ys"
  by (induction xs) auto

lemma aliases_of_absent: "n \<notin> filename ` set ds \<Longrightarrow> aliases_of n ds = {}"
  by (induction ds) auto

lemma aliases_of_merge_into:
  "aliases_of n (snd (merge_into dep ds)) =
     aliases_of n ds
     \<union> (if n = filename dep \<and> n \<in> filename ` set ds then set (symlinks dep) else {})"
proof (induction ds)
  case Nil
  then show ?case by (simp add: snd_merge_into)
next
  case (Cons d ds)
  have "snd (merge_into dep (d # ds)) =
          (if filename d = filename dep
           then foldl (\<lambda>d2 s. addSymlink s d2) d (symlinks dep) else d) # snd (merge_into dep ds)"
    by (simp add: snd_merge_into del: merge_into.simps)
  with Cons show ?case by auto
qed

lemma aliases_of_graph_add:
  "aliases_of n (deps (graph_add dep fl True st)) =
     aliases_of n (deps st) \<union> (if n = filename dep then set (symlinks dep) else {})"
proof (cases "filename dep \<in> filename ` set (deps st)")
  case True
  then show ?thesis by (simp add: deps_graph_add aliases_of_merge_into)
next
  case False
  then show ?thesis by (simp add: deps_graph_add merge_into_no_match)
qed

lemma aliases_of_unique:
  "distinct (map filename xs) \<Longrightarrow> d \<in> set xs \<Longrightarrow> aliases_of (filename d) xs = set (symlinks d)"
proof (induction xs)
  case Nil
  then show ?case by simp
next
  case (Cons x xs)
  show ?case
  proof (cases "d = x")
    case True
    with Cons.prems have "filename d \<notin> filename ` set xs" by simp
    then have "aliases_of (filename d) xs = {}" by (rule aliases_of_absent)
    with True show ?thesis by simp
  next
    case False
    with Cons.prems have d: "d \<in> set xs" and "filename x \<noteq> filename d" by auto
    with Cons show ?thesis by simp
  qed
qed

lemma entry_view_merge_into:
  "map entry_view (snd (merge_into dep ds)) =
     map (\<lambda>d. if filename d = filename dep
               then (filename d, prefix d, new_name d, set (symlinks d) \<union> set (symlinks dep))
               else entry_view d) ds"
  by (simp add: snd_merge_into if_distrib [of entry_view] entry_view_def del: merge_into.simps)

lemma add_entry_commute:
  assumes "filename d1 = filename d2" and "prefix d1 = prefix d2" and "new_name d1 = new_name d2"
  shows "map entry_view (deps (graph_add d2 f2 True (graph_add d1 f1 True st)))
       = map entry_view (deps (graph_add d1 f1 True (graph_add d2 f2 True st)))"
proof (cases "filename d1 \<in> filename ` set (deps st)")
  case True
  have m: "\<And>a b ds. filename a = filename b \<Longrightarrow>
      map entry_view (snd (merge_into a (snd (merge_into b ds)))) =
      map (\<lambda>d. if filename d = filename b
               then (filename d, prefix d, new_name d,
                     set (symlinks d) \<union> set (symlinks b) \<union> set (symlinks a))
               else entry_view d) ds"
    by (simp add: entry_view_merge_into) (simp add: snd_merge_into entry_view_def)
  from True assms(1) have in1: "filename d1 \<in> filename ` set (deps st)"
    and in2: "filename d2 \<in> filename ` set (deps st)" by simp_all
  have "deps (graph_add d2 f2 True (graph_add d1 f1 True st))
               = snd (merge_into d2 (snd (merge_into d1 (deps st))))"
    using in1 in2 by (simp add: deps_graph_add) (metis list.set_map merge_into_names(1))
  moreover have "deps (graph_add d1 f1 True (graph_add d2 f2 True st))
               = snd (merge_into d1 (snd (merge_into d2 (deps st))))"
    using in1 in2 by (simp add: deps_graph_add) (metis list.set_map merge_into_names(1))
  ultimately show ?thesis
    using m [of d2 d1 "deps st"] m [of d1 d2 "deps st"] assms(1)
    by (simp add: Un_ac)
next
  case False
  then have n1: "filename d1 \<notin> filename ` set (deps st)"
    and n2: "filename d2 \<notin> filename ` set (deps st)" using assms(1) by simp_all
  have a: "deps (graph_add d1 f1 True st) = deps st @ [d1]"
    and b: "deps (graph_add d2 f2 True st) = deps st @ [d2]"
    using n1 n2 by (simp_all add: deps_graph_add merge_into_no_match)
  have "snd (merge_into d2 (deps st @ [d1]))
               = deps st @ [foldl (\<lambda>d s. addSymlink s d) d1 (symlinks d2)]"
    using n2 assms(1) merge_into_no_match [OF n2] by (simp add: snd_merge_into)
  moreover have "deps (graph_add d2 f2 True (graph_add d1 f1 True st))
               = snd (merge_into d2 (deps st @ [d1]))"
    by (subst deps_graph_add) (simp add: a assms(1))
  ultimately have x: "deps (graph_add d2 f2 True (graph_add d1 f1 True st))
               = deps st @ [foldl (\<lambda>d s. addSymlink s d) d1 (symlinks d2)]"
    by simp
  have "snd (merge_into d1 (deps st @ [d2]))
               = deps st @ [foldl (\<lambda>d s. addSymlink s d) d2 (symlinks d1)]"
    using n1 assms(1) merge_into_no_match [OF n1] by (simp add: snd_merge_into)
  moreover have "deps (graph_add d1 f1 True (graph_add d2 f2 True st))
               = snd (merge_into d1 (deps st @ [d2]))"
    by (subst deps_graph_add) (simp add: b assms(1))
  ultimately have y: "deps (graph_add d1 f1 True (graph_add d2 f2 True st))
               = deps st @ [foldl (\<lambda>d s. addSymlink s d) d2 (symlinks d1)]"
    by simp
  show ?thesis
    unfolding x y using assms by (simp add: entry_view_def Un_ac)
qed

lemma names_merge_into [simp]:
  "filename ` set (snd (merge_into dep ds)) = filename ` set ds"
  by (metis list.set_map merge_into_names(1))

lemma graph_add_has_entry:
  "filename dep \<in> filename ` set (deps (graph_add dep fl True st))"
  by (cases "filename dep \<in> filename ` set (deps st)") (simp_all add: deps_graph_add)

subsection \<open>What the constructor returns\<close>

lemma Dependency_ctor_result:
  assumes "Dependency_ctor e path df g = (Ok d, g')"
  shows "CHR ''/'' \<notin> set (filename d)" and "set (symlinks d) \<subseteq> {rtrim path}"
  using assms
  by (auto simp: Dependency_ctor_def Let_def returnM_def getsM_def if_distribR
      stripPrefix_no_slash elim!: bindM_Ok_elim split: if_splits)

subsection \<open>Invariants of the tables\<close>

text \<open>
  An invariant of the tables that every \<^verbatim>\<open>addDependency\<close> on a reference that passed
  the filter keeps is kept by the inspection of a file and by the passes of the
  expansion.
\<close>

lemma dep_path_of_contains:
  "str_contains (dep_path_of line) pat \<Longrightarrow> str_contains line pat"
  by (auto simp: dep_path_of_def split: option.splits if_splits
      dest!: str_contains_take str_contains_drop)

lemma tables_collectDependencies_line:
  assumes "\<And>path fl. \<not> isSystemLibrary path \<Longrightarrow> \<not> str_contains path ''.framework''
             \<Longrightarrow> preserves Q (addDependency e path fl)"
  shows "preserves Q (collectDependencies_line e fl line)"
  unfolding collectDependencies_line_def
  by (auto intro!: assms dest: dep_path_of_contains)

lemma tables_collectDependencies:
  assumes add: "\<And>path fl. \<not> isSystemLibrary path \<Longrightarrow> \<not> str_contains path ''.framework''
             \<Longrightarrow> preserves Q (addDependency e path fl)"
    and frame: "\<And>st g. Q (st\<lparr>glob := g\<rparr>) = Q st"
    and coll: "\<And>st m. Q (st\<lparr>deps_collected := m\<rparr>) = Q st"
  shows "preserves Q (collectDependencies e fl)"
proof -
  have "preserves Q
          (bindM (liftG (collectRpaths e fl)) (\<lambda>_.
           bindM (liftG (collectDependencies_lines e fl)) (\<lambda>lines.
           bindM (forM lines (collectDependencies_line e fl)) (\<lambda>_.
             (\<lambda>st. (Ok (), st\<lparr>deps_collected := (deps_collected st)(fl \<mapsto> True)\<rparr>))))))"
    by (intro preserves_bindM preserves_liftG_frame frame preserves_forM
        tables_collectDependencies_line add preserves_update) (simp_all add: coll)
  then show ?thesis
    by (auto simp: preserves_def collectDependencies_def)
qed

lemma tables_subdeps_step:
  assumes add: "\<And>path fl. \<not> isSystemLibrary path \<Longrightarrow> \<not> str_contains path ''.framework''
             \<Longrightarrow> preserves Q (addDependency e path fl)"
    and frame: "\<And>st g. Q (st\<lparr>glob := g\<rparr>) = Q st"
    and coll: "\<And>st m. Q (st\<lparr>deps_collected := m\<rparr>) = Q st"
  shows "preserves Q (subdeps_step e n)"
proof (rule preservesI)
  fix st :: state assume Q: "Q st"
  show "Q (snd (subdeps_step e n st))"
  proof (cases "n < length (deps st)")
    case True
    let ?p = "getOriginalPath (deps st ! n)"
    have "preserves Q
            (bindM (if isRpath ?p then liftG (searchFilenameInRpaths e ?p ?p) else returnM ?p)
               (\<lambda>original_path. collectDependencies e original_path))"
      by (intro preserves_bindM preserves_if preserves_liftG_frame frame preserves_returnM
          tables_collectDependencies add coll)
    from preservesD [OF this Q] True show ?thesis
      by (simp add: subdeps_step_def Let_def)
  next
    case False
    with Q show ?thesis by (simp add: subdeps_step_def)
  qed
qed

lemma tables_subdeps_pass:
  assumes add: "\<And>path fl. \<not> isSystemLibrary path \<Longrightarrow> \<not> str_contains path ''.framework''
             \<Longrightarrow> preserves Q (addDependency e path fl)"
    and frame: "\<And>st g. Q (st\<lparr>glob := g\<rparr>) = Q st"
    and coll: "\<And>st m. Q (st\<lparr>deps_collected := m\<rparr>) = Q st"
  shows "preserves Q (subdeps_pass e)"
proof (rule preservesI)
  fix st :: state assume Q: "Q st"
  have "preserves Q (forM [0..<length (deps st)] (subdeps_step e))"
    by (intro preserves_forM tables_subdeps_step add frame coll)
  from preservesD [OF this Q] show "Q (snd (subdeps_pass e st))"
    by (simp add: subdeps_pass_def)
qed

lemma tables_collectSubDependencies:
  assumes add: "\<And>path fl. \<not> isSystemLibrary path \<Longrightarrow> \<not> str_contains path ''.framework''
             \<Longrightarrow> preserves Q (addDependency e path fl)"
    and frame: "\<And>st g. Q (st\<lparr>glob := g\<rparr>) = Q st"
    and coll: "\<And>st m. Q (st\<lparr>deps_collected := m\<rparr>) = Q st"
  shows "collectSubDependencies k e st = Some (r, st') \<Longrightarrow> Q st \<Longrightarrow> Q st'"
proof (induction k arbitrary: st)
  case 0
  then show ?case by simp
next
  case (Suc k)
  obtain r1 st1 where p: "subdeps_pass e st = (r1, st1)" by (cases "subdeps_pass e st")
  have Q1: "Q st1"
    using preservesD [OF tables_subdeps_pass [of Q e, OF add frame coll], of st] Suc.prems(2) p
    by simp
  show ?case
  proof (cases r1)
    case (Ok u)
    with Suc p Q1 show ?thesis by (auto split: if_splits)
  qed (use Suc.prems p Q1 in auto)
qed

subsection \<open>System libraries and frameworks\<close>

lemma no_system_refs_iff:
  "no_system_refs ds \<longleftrightarrow>
     (\<forall>d\<in>set ds. \<not> isSystemLibrary (getOriginalPath d)
                \<and> \<not> str_contains (prefix d) ''.framework''
                \<and> (\<forall>s\<in>set (symlinks d). \<not> isSystemLibrary s \<and> \<not> str_contains s ''.framework''))"
  by (auto simp: no_system_refs_def list_all_iff)

lemma no_system_refs_addDependency:
  assumes "\<not> isSystemLibrary path" and "\<not> str_contains path ''.framework''"
  shows "preserves (\<lambda>st. no_system_refs (deps st)) (addDependency e path fl)"
proof (rule preservesI)
  fix st :: state assume inv: "no_system_refs (deps st)"
  obtain r g where c: "Dependency_ctor e path fl (glob st) = (r, g)"
    by (cases "Dependency_ctor e path fl (glob st)")
  show "no_system_refs (deps (snd (addDependency e path fl st)))"
  proof (cases r)
    case (Ok dep)
    with c Dependency_ctor_result [of e path fl "glob st" dep g]
    have leaf: "CHR ''/'' \<notin> set (filename dep)" and syms: "set (symlinks dep) \<subseteq> {rtrim path}"
      by simp_all
    have okpath: "\<not> isSystemLibrary (rtrim path)" "\<not> str_contains (rtrim path) ''.framework''"
      using assms by (auto dest: isSystemLibrary_rtrim str_contains_rtrim)
    with syms have oksyms: "\<forall>s\<in>set (symlinks dep). \<not> isSystemLibrary s \<and> \<not> str_contains s ''.framework''"
      by auto
    have merged: "no_system_refs (snd (merge_into dep (deps st)))"
      using inv oksyms by (auto simp: no_system_refs_iff snd_merge_into getOriginalPath_def)
    have new: "no_system_refs [dep]" if "isPrefixBundled g (prefix dep)"
    proof -
      from that have "\<not> isSystemLibrary (prefix dep)" "\<not> str_contains (prefix dep) ''.framework''"
        by (auto simp: isPrefixBundled_def split: if_splits)
      with leaf oksyms show ?thesis
        by (auto simp: no_system_refs_iff getOriginalPath_def dest: isSystemLibrary_original_path)
    qed
    have "deps (snd (addDependency e path fl st))
            = deps (graph_add dep fl (isPrefixBundled g (prefix dep)) (st\<lparr>glob := g\<rparr>))"
      using c Ok by (simp add: addDependency_eq)
    also have "no_system_refs \<dots>"
      using merged new by (auto simp: deps_graph_add no_system_refs_iff)
    finally show ?thesis .
  qed (use c inv in \<open>simp_all add: addDependency_eq\<close>)
qed

text \<open>The test for a prefix, by recursion on the pattern; it is the code equation.\<close>

lemma starts_with_code [code]:
  "starts_with [] s = True"
  "starts_with (p # ps) [] = False"
  "starts_with (p # ps) (c # cs) = (p = c \<and> starts_with ps cs)"
  by (auto simp: starts_with_def)

lemma collectDependencies_line_skipped:
  "skipped_line line \<Longrightarrow> collectDependencies_line e fl line st = (Ok (), st)"
  by (auto simp: collectDependencies_line_def skipped_line_def returnM_def)

lemma forM_skipped:
  "forM lines (collectDependencies_line e fl) st =
     forM (filter (\<lambda>l. \<not> skipped_line l) lines) (collectDependencies_line e fl) st"
  by (induction lines arbitrary: st)
    (auto simp: collectDependencies_line_skipped bindM_def split: prod.splits res.splits)

lemma no_system_refs_frame [simp]:
  "no_system_refs (deps (st\<lparr>glob := g\<rparr>)) = no_system_refs (deps st)"
  "no_system_refs (deps (st\<lparr>deps_collected := m\<rparr>)) = no_system_refs (deps st)"
  by simp_all

subsection \<open>Invariants of the runs that return\<close>

lemma preserves_on_returnI:
  "(\<And>s v s'. P s \<Longrightarrow> m s = (Ok v, s') \<Longrightarrow> P s') \<Longrightarrow> preserves_on_return P m"
  by (auto simp: preserves_on_return_def)

lemma preserves_on_returnD:
  "preserves_on_return P m \<Longrightarrow> P s \<Longrightarrow> m s = (Ok v, s') \<Longrightarrow> P s'"
  by (auto simp: preserves_on_return_def)

lemma preserves_on_return_weaken:
  assumes "preserves P m"
  shows "preserves_on_return P m"
proof (rule preserves_on_returnI)
  fix s v s' assume "P s" and r: "m s = (Ok v, s')"
  with assms have "P (snd (m s))" by (auto dest: preservesD)
  with r show "P s'" by simp
qed

lemma preserves_on_return_bindM:
  assumes "preserves_on_return P m" and "\<And>a. preserves_on_return P (f a)"
  shows "preserves_on_return P (bindM m f)"
proof (rule preserves_on_returnI)
  fix s v s' assume P: "P s" and r: "bindM m f s = (Ok v, s')"
  from r obtain a s1 where m: "m s = (Ok a, s1)" and f: "f a s1 = (Ok v, s')"
    by (rule bindM_Ok_elim)
  from assms(1) P m have "P s1" by (rule preserves_on_returnD)
  with assms(2) [of a] show "P s'" using f by (rule preserves_on_returnD)
qed

lemma preserves_on_return_forM:
  "(\<And>x. x \<in> set xs \<Longrightarrow> preserves_on_return P (f x)) \<Longrightarrow> preserves_on_return P (forM xs f)"
proof (induction xs)
  case Nil
  then show ?case by (simp add: preserves_on_return_def returnM_def)
next
  case (Cons x xs)
  then show ?case by (auto intro!: preserves_on_return_bindM)
qed

subsection \<open>The lists of inspected files\<close>

lemma dom_deps_per_file_graph_add [simp]:
  "dom (deps_per_file (graph_add dep fl b st)) = insert fl (dom (deps_per_file st))"
  by (simp add: graph_add_def Let_def)

lemma listed_but_glob [simp]:
  "listed_are_inspected_but fl (st\<lparr>glob := g\<rparr>) = listed_are_inspected_but fl st"
  by (simp add: listed_are_inspected_but_def)

lemma listed_but_graph_add:
  "listed_are_inspected_but fl st \<Longrightarrow> listed_are_inspected_but fl (graph_add dep fl b st)"
  by (simp add: listed_are_inspected_but_def)

lemma listed_addDependency:
  "preserves (listed_are_inspected_but fl) (addDependency e path fl)"
proof (rule preservesI)
  fix st :: state assume inv: "listed_are_inspected_but fl st"
  obtain r g where c: "Dependency_ctor e path fl (glob st) = (r, g)"
    by (cases "Dependency_ctor e path fl (glob st)")
  show "listed_are_inspected_but fl (snd (addDependency e path fl st))"
  proof (cases r)
    case (Ok dep)
    with c inv show ?thesis
      by (simp add: addDependency_eq listed_but_graph_add)
  qed (use c inv in \<open>simp_all add: addDependency_eq\<close>)
qed

lemma listed_collectDependencies_line:
  "preserves (listed_are_inspected_but fl) (collectDependencies_line e fl line)"
  unfolding collectDependencies_line_def by (auto intro!: listed_addDependency)

lemma collectDependencies_unfold:
  assumes "deps_collected st fl = None"
  shows "collectDependencies e fl st =
           bindM (bindM (liftG (collectRpaths e fl)) (\<lambda>_.
                  bindM (liftG (collectDependencies_lines e fl)) (\<lambda>lines.
                    forM lines (collectDependencies_line e fl))))
             (\<lambda>_ st. (Ok (), st\<lparr>deps_collected := (deps_collected st)(fl \<mapsto> True)\<rparr>)) st"
  using assms by (simp add: collectDependencies_def bindM_def split: prod.splits res.splits)

lemma collectDependencies_marks:
  assumes "collectDependencies e fl st = (Ok v, st')"
  shows "fl \<in> dom (deps_collected st')"
proof (cases "deps_collected st fl = None")
  case False
  with assms show ?thesis by (auto simp: collectDependencies_def)
next
  case True
  from assms [unfolded collectDependencies_unfold [OF True]]
  obtain u st1 where "(Ok (), st1\<lparr>deps_collected := (deps_collected st1)(fl \<mapsto> True)\<rparr>) = (Ok v, st')"
    by (rule bindM_Ok_elim)
  then show ?thesis by auto
qed

lemma listed_collectDependencies:
  "preserves_on_return listed_are_inspected (collectDependencies e fl)"
proof (rule preserves_on_returnI)
  fix st :: state and v st'
  assume inv: "listed_are_inspected st" and r: "collectDependencies e fl st = (Ok v, st')"
  show "listed_are_inspected st'"
  proof (cases "deps_collected st fl = None")
    case False
    with r inv show ?thesis by (simp add: collectDependencies_def)
  next
    case True
    have but: "listed_are_inspected_but fl st"
      using inv by (auto simp: listed_are_inspected_def listed_are_inspected_but_def)
    let ?body = "bindM (liftG (collectRpaths e fl)) (\<lambda>_.
           bindM (liftG (collectDependencies_lines e fl)) (\<lambda>lines.
             forM lines (collectDependencies_line e fl)))"
    have p: "preserves (listed_are_inspected_but fl) ?body"
      by (intro preserves_bindM preserves_liftG_frame preserves_forM
          listed_collectDependencies_line) (simp_all add: listed_are_inspected_but_def)
    from r [unfolded collectDependencies_unfold [OF True]]
    obtain u st1 where b: "?body st = (Ok u, st1)"
      and f: "(Ok (), st1\<lparr>deps_collected := (deps_collected st1)(fl \<mapsto> True)\<rparr>) = (Ok v, st')"
      by (rule bindM_Ok_elim)
    from preservesD [OF p but] b have "listed_are_inspected_but fl st1" by simp
    moreover from f have "st' = st1\<lparr>deps_collected := (deps_collected st1)(fl \<mapsto> True)\<rparr>"
      by simp
    ultimately show ?thesis
      by (simp add: listed_are_inspected_def listed_are_inspected_but_def)
  qed
qed

lemma listed_glob [simp]: "listed_are_inspected (st\<lparr>glob := g\<rparr>) = listed_are_inspected st"
  by (simp add: listed_are_inspected_def)

lemma listed_subdeps_step: "preserves_on_return listed_are_inspected (subdeps_step e n)"
proof (rule preserves_on_returnI)
  fix st :: state and v st'
  assume inv: "listed_are_inspected st" and r: "subdeps_step e n st = (Ok v, st')"
  then have n: "n < length (deps st)" by (auto simp: subdeps_step_def split: if_splits)
  let ?p = "getOriginalPath (deps st ! n)"
  have "preserves_on_return listed_are_inspected
          (bindM (if isRpath ?p then liftG (searchFilenameInRpaths e ?p ?p) else returnM ?p)
             (\<lambda>original_path. collectDependencies e original_path))"
    by (intro preserves_on_return_bindM listed_collectDependencies preserves_on_return_weaken
        preserves_if preserves_liftG_frame preserves_returnM) simp
  from preserves_on_returnD [OF this inv] r n show "listed_are_inspected st'"
    by (simp add: subdeps_step_def Let_def)
qed

lemma listed_subdeps_pass: "preserves_on_return listed_are_inspected (subdeps_pass e)"
proof (rule preserves_on_returnI)
  fix st :: state and v st'
  assume inv: "listed_are_inspected st" and r: "subdeps_pass e st = (Ok v, st')"
  have "preserves_on_return listed_are_inspected (forM [0..<length (deps st)] (subdeps_step e))"
    by (intro preserves_on_return_forM listed_subdeps_step)
  from preserves_on_returnD [OF this inv] r show "listed_are_inspected st'"
    by (simp add: subdeps_pass_def)
qed

lemma listed_collectSubDependencies:
  "collectSubDependencies k e st = Some (Ok v, st') \<Longrightarrow> listed_are_inspected st
   \<Longrightarrow> listed_are_inspected st'"
proof (induction k arbitrary: st)
  case 0
  then show ?case by simp
next
  case (Suc k)
  obtain r1 st1 where p: "subdeps_pass e st = (r1, st1)" by (cases "subdeps_pass e st")
  show ?case
  proof (cases r1)
    case (Ok u)
    with p Suc.prems(2) have "listed_are_inspected st1"
      by (auto dest: preserves_on_returnD [OF listed_subdeps_pass])
    with Suc Ok p show ?thesis by (auto split: if_splits)
  qed (use Suc.prems p in auto)
qed

subsection \<open>The growth of \<^verbatim>\<open>deps\<close>\<close>

lemma length_addDependency:
  "preserves (\<lambda>st. n \<le> length (deps st)) (addDependency e path fl)"
proof (rule preservesI)
  fix st :: state assume inv: "n \<le> length (deps st)"
  obtain r g where c: "Dependency_ctor e path fl (glob st) = (r, g)"
    by (cases "Dependency_ctor e path fl (glob st)")
  show "n \<le> length (deps (snd (addDependency e path fl st)))"
  proof (cases r)
    case (Ok dep)
    with c inv show ?thesis
      by (simp add: addDependency_eq deps_graph_add)
  qed (use c inv in \<open>simp_all add: addDependency_eq\<close>)
qed

lemma distinct_addDependency:
  "preserves (\<lambda>st. distinct (map filename (deps st))) (addDependency e path fl)"
proof (rule preservesI)
  fix st :: state assume inv: "distinct (map filename (deps st))"
  obtain r g where c: "Dependency_ctor e path fl (glob st) = (r, g)"
    by (cases "Dependency_ctor e path fl (glob st)")
  show "distinct (map filename (deps (snd (addDependency e path fl st))))"
  proof (cases r)
    case (Ok dep)
    have "distinct (map filename (deps (graph_add dep fl (isPrefixBundled g (prefix dep))
                                          (st\<lparr>glob := g\<rparr>))))"
      using inv by (intro distinct_graph_add) simp
    with c Ok show ?thesis by (simp add: addDependency_eq)
  qed (use c inv in \<open>simp_all add: addDependency_eq\<close>)
qed

lemma length_subdeps_pass: "length (deps st) \<le> length (deps (snd (subdeps_pass e st)))"
  using preservesD [OF tables_subdeps_pass [of "\<lambda>s. length (deps st) \<le> length (deps s)" e],
      of st]
  by (simp add: length_addDependency)

lemma distinct_subdeps_pass:
  "distinct (map filename (deps st)) \<Longrightarrow> distinct (map filename (deps (snd (subdeps_pass e st))))"
  using preservesD [OF tables_subdeps_pass [of "\<lambda>s. distinct (map filename (deps s))" e],
      of st]
  by (simp add: distinct_addDependency)

lemma collectSubDependencies_no_deps:
  assumes "deps st = []"
  shows "collectSubDependencies (Suc k) e st = Some (Ok (), st)"
  using assms by (simp add: subdeps_pass_def returnM_def)

lemma first_existing_earliest:
  assumes "list_all (\<lambda>q. fileExists e (cand q) = Ok False) ps"
    and "fileExists e (cand p) = Ok True"
  shows "first_existing e cand (ps @ p # qs) s = (Ok (Some p), s)"
  using assms by (induction ps) (simp_all add: bindM_def pureM_def returnM_def)

subsection \<open>The list of ignored prefixes\<close>

lemma ignore_list_stable: "stable (\<lambda>g. prefixes_to_ignore g = X)"
  by (simp add: stable_def)

lemma isPrefixIgnored_cong:
  "prefixes_to_ignore g' = prefixes_to_ignore g \<Longrightarrow> isPrefixIgnored g' p = isPrefixIgnored g p"
  by (simp add: isPrefixIgnored_def)

lemma isPrefixBundled_cong:
  "prefixes_to_ignore g' = prefixes_to_ignore g \<Longrightarrow> isPrefixBundled g' p = isPrefixBundled g p"
  by (simp add: isPrefixBundled_def isPrefixIgnored_def)

subsection \<open>Adding a reference that resolves\<close>

lemma ignore_list_Dependency_resolve:
  "prefixes_to_ignore (snd (Dependency_resolve e path fl g)) = prefixes_to_ignore g"
  using preservesD [OF stable_Dependency_resolve [OF ignore_list_stable, of "prefixes_to_ignore g"],
      of g]
  by simp

lemma Dependency_ctor_resolved:
  assumes res: "Dependency_resolve e (rtrim path) fl g = (Ok c, g1)"
    and real: "isPrefixBundled g (dirPrefix c) \<Longrightarrow> dirPrefix c \<noteq> [] \<and> fileExists e c = Ok True"
  shows "Dependency_ctor e path fl g =
           (Ok \<lparr>filename = stripPrefix c, prefix = dirPrefix c,
                symlinks = (if c \<noteq> rtrim path then [rtrim path] else []),
                new_name = (if isPrefixBundled g (dirPrefix c) then stripPrefix c else [])\<rparr>, g1)"
proof -
  from ignore_list_Dependency_resolve [of e "rtrim path" fl g] res
  have "prefixes_to_ignore g1 = prefixes_to_ignore g" by simp
  then have b: "isPrefixBundled g1 (dirPrefix c) = isPrefixBundled g (dirPrefix c)"
    by (rule isPrefixBundled_cong)
  show ?thesis
  proof (cases "isPrefixBundled g (dirPrefix c)")
    case True
    with real have "dirPrefix c \<noteq> []" and "fileExists e c = Ok True" by simp_all
    then have "Dependency_locate e (stripPrefix c) (dirPrefix c) g1 = (Ok (dirPrefix c), g1)"
      by (intro Dependency_locate_present) (simp_all add: dirPrefix_stripPrefix)
    with res b True show ?thesis
      by (simp add: Dependency_ctor_def Let_def bindM_def returnM_def getsM_def)
  next
    case False
    with res b show ?thesis
      by (simp add: Dependency_ctor_def Let_def bindM_def returnM_def getsM_def)
  qed
qed

lemma deps_graph_add_cong:
  "deps s = deps s' \<Longrightarrow> deps (graph_add d f b s) = deps (graph_add d f' b s')"
  by (simp add: deps_graph_add)

lemma addDependency_resolved:
  assumes "resolves_to e path fl st c"
    and "isPrefixBundled (glob st) (dirPrefix c) \<Longrightarrow> dirPrefix c \<noteq> [] \<and> fileExists e c = Ok True"
  shows "fst (addDependency e path fl st) = Ok ()"
    and "deps (snd (addDependency e path fl st)) =
           deps (graph_add
                   \<lparr>filename = stripPrefix c, prefix = dirPrefix c,
                    symlinks = (if c \<noteq> rtrim path then [rtrim path] else []),
                    new_name = (if isPrefixBundled (glob st) (dirPrefix c)
                                then stripPrefix c else [])\<rparr>
                   fl (isPrefixBundled (glob st) (dirPrefix c)) st)"
    and "prefixes_to_ignore (glob (snd (addDependency e path fl st)))
           = prefixes_to_ignore (glob st)"
proof -
  obtain g1 where res: "Dependency_resolve e (rtrim path) fl (glob st) = (Ok c, g1)"
    using assms(1) unfolding resolves_to_def
    by (cases "Dependency_resolve e (rtrim path) fl (glob st)") simp
  from ignore_list_Dependency_resolve [of e "rtrim path" fl "glob st"] res
  have ign: "prefixes_to_ignore g1 = prefixes_to_ignore (glob st)" by simp
  note ctor = Dependency_ctor_resolved [OF res assms(2)]
  have b: "isPrefixBundled g1 (dirPrefix c) = isPrefixBundled (glob st) (dirPrefix c)"
    using ign by (rule isPrefixBundled_cong)
  have eq: "addDependency e path fl st =
          (Ok (), graph_add
                   \<lparr>filename = stripPrefix c, prefix = dirPrefix c,
                    symlinks = (if c \<noteq> rtrim path then [rtrim path] else []),
                    new_name = (if isPrefixBundled (glob st) (dirPrefix c)
                                then stripPrefix c else [])\<rparr>
                   fl (isPrefixBundled (glob st) (dirPrefix c)) (st\<lparr>glob := g1\<rparr>))"
    using ctor b by (simp add: addDependency_eq)
  show "fst (addDependency e path fl st) = Ok ()"
    unfolding eq by simp
  show "deps (snd (addDependency e path fl st)) =
           deps (graph_add
                   \<lparr>filename = stripPrefix c, prefix = dirPrefix c,
                    symlinks = (if c \<noteq> rtrim path then [rtrim path] else []),
                    new_name = (if isPrefixBundled (glob st) (dirPrefix c)
                                then stripPrefix c else [])\<rparr>
                   fl (isPrefixBundled (glob st) (dirPrefix c)) st)"
    unfolding eq by (simp add: deps_graph_add)
  show "prefixes_to_ignore (glob (snd (addDependency e path fl st)))
           = prefixes_to_ignore (glob st)"
    unfolding eq using ign by simp
qed

lemma add_entry_commute_any:
  assumes "filename d1 = filename d2" and "prefix d1 = prefix d2" and "new_name d1 = new_name d2"
  shows "map entry_view (deps (graph_add d2 f2 b (graph_add d1 f1 b st)))
       = map entry_view (deps (graph_add d1 f1 b (graph_add d2 f2 b st)))"
proof (cases b)
  case True
  with add_entry_commute [OF assms] show ?thesis by simp
next
  case False
  have m: "\<And>x y ds. filename x = filename y \<Longrightarrow>
      map entry_view (snd (merge_into x (snd (merge_into y ds)))) =
      map (\<lambda>d. if filename d = filename y
               then (filename d, prefix d, new_name d,
                     set (symlinks d) \<union> set (symlinks y) \<union> set (symlinks x))
               else entry_view d) ds"
    by (simp add: entry_view_merge_into) (simp add: snd_merge_into entry_view_def)
  from False m [of d2 d1 "deps st"] m [of d1 d2 "deps st"] assms(1) show ?thesis
    by (simp add: deps_graph_add Un_ac)
qed

lemma distinct_collectDependencies:
  "distinct (map filename (deps st))
   \<Longrightarrow> distinct (map filename (deps (snd (collectDependencies e fl st))))"
  using preservesD [OF tables_collectDependencies [of "\<lambda>s. distinct (map filename (deps s))" e fl],
      of st]
  by (simp add: distinct_addDependency)

subsection \<open>Entries and ignored prefixes\<close>

lemma ignore_list_Dependency_ctor:
  "prefixes_to_ignore (snd (Dependency_ctor e path fl g)) = prefixes_to_ignore g"
  using preservesD [OF stable_Dependency_ctor [OF ignore_list_stable, of "prefixes_to_ignore g"], of g]
  by simp

lemma addDependency_not_bundled:
  assumes "Dependency_ctor e path fl (glob st) = (Ok d, g')"
    and "\<not> isPrefixBundled (glob st) (prefix d)"
  shows "addDependency e path fl st = (Ok (), graph_add d fl False (st\<lparr>glob := g'\<rparr>))"
proof -
  from ignore_list_Dependency_ctor [of e path fl "glob st"] assms(1)
  have "prefixes_to_ignore g' = prefixes_to_ignore (glob st)" by simp
  from isPrefixBundled_cong [OF this, of "prefix d"] assms(2)
  have "\<not> isPrefixBundled g' (prefix d)" by simp
  with assms(1) show ?thesis by (simp add: addDependency_eq)
qed

lemma no_ignored_entries_iff:
  "no_ignored_entries st \<longleftrightarrow> (\<forall>d\<in>set (deps st). prefix d \<notin> set (prefixes_to_ignore (glob st)))"
  by (simp add: no_ignored_entries_def list_all_iff isPrefixIgnored_iff)

lemma prefix_merge_into [simp]:
  "prefix ` set (snd (merge_into dep ds)) = prefix ` set ds"
  by (metis list.set_map merge_into_names(2))

text \<open>
  An invariant of the tables under a condition on the globals that the resolution of
  a reference keeps.
\<close>

lemma preserves_conj_liftG:
  assumes "stable P" and "preserves P m" and "\<And>st g. Q (st\<lparr>glob := g\<rparr>) = Q st"
  shows "preserves (\<lambda>st. P (glob st) \<and> Q st) (liftG m)"
  using assms(2,3)
  by (auto simp: preserves_def liftG_def split: prod.splits dest: spec [of _ "glob _"])

lemma guarded_collectDependencies_line:
  assumes "\<And>path fl. preserves (\<lambda>st. P (glob st) \<and> Q st) (addDependency e path fl)"
  shows "preserves (\<lambda>st. P (glob st) \<and> Q st) (collectDependencies_line e fl line)"
  unfolding collectDependencies_line_def
  by (auto intro!: assms)

lemma guarded_collectDependencies:
  assumes st: "stable P"
    and add: "\<And>path fl. preserves (\<lambda>st. P (glob st) \<and> Q st) (addDependency e path fl)"
    and frame: "\<And>st g. Q (st\<lparr>glob := g\<rparr>) = Q st"
    and coll: "\<And>st m. Q (st\<lparr>deps_collected := m\<rparr>) = Q st"
  shows "preserves (\<lambda>st. P (glob st) \<and> Q st) (collectDependencies e fl)"
proof -
  have "preserves (\<lambda>st. P (glob st) \<and> Q st)
          (bindM (liftG (collectRpaths e fl)) (\<lambda>_.
           bindM (liftG (collectDependencies_lines e fl)) (\<lambda>lines.
           bindM (forM lines (collectDependencies_line e fl)) (\<lambda>_.
             (\<lambda>st. (Ok (), st\<lparr>deps_collected := (deps_collected st)(fl \<mapsto> True)\<rparr>))))))"
    by (intro preserves_bindM preserves_conj_liftG st stable_collectRpaths
        stable_collectDependencies_lines frame preserves_forM guarded_collectDependencies_line
        add preserves_update) (simp_all add: coll)
  then show ?thesis
    by (auto simp: preserves_def collectDependencies_def)
qed

lemma guarded_subdeps_step:
  assumes st: "stable P"
    and add: "\<And>path fl. preserves (\<lambda>st. P (glob st) \<and> Q st) (addDependency e path fl)"
    and frame: "\<And>st g. Q (st\<lparr>glob := g\<rparr>) = Q st"
    and coll: "\<And>st m. Q (st\<lparr>deps_collected := m\<rparr>) = Q st"
  shows "preserves (\<lambda>st. P (glob st) \<and> Q st) (subdeps_step e n)"
proof (rule preservesI)
  fix s :: state assume Q: "P (glob s) \<and> Q s"
  show "P (glob (snd (subdeps_step e n s))) \<and> Q (snd (subdeps_step e n s))"
  proof (cases "n < length (deps s)")
    case True
    let ?p = "getOriginalPath (deps s ! n)"
    have "preserves (\<lambda>st. P (glob st) \<and> Q st)
            (bindM (if isRpath ?p then liftG (searchFilenameInRpaths e ?p ?p) else returnM ?p)
               (\<lambda>original_path. collectDependencies e original_path))"
      by (intro preserves_bindM preserves_if preserves_conj_liftG st
          stable_searchFilenameInRpaths frame preserves_returnM
          guarded_collectDependencies add coll)
    from preservesD [OF this Q] True show ?thesis
      by (simp add: subdeps_step_def Let_def)
  next
    case False
    with Q show ?thesis by (simp add: subdeps_step_def)
  qed
qed

lemma guarded_subdeps_pass:
  assumes st: "stable P"
    and add: "\<And>path fl. preserves (\<lambda>st. P (glob st) \<and> Q st) (addDependency e path fl)"
    and frame: "\<And>st g. Q (st\<lparr>glob := g\<rparr>) = Q st"
    and coll: "\<And>st m. Q (st\<lparr>deps_collected := m\<rparr>) = Q st"
  shows "preserves (\<lambda>st. P (glob st) \<and> Q st) (subdeps_pass e)"
proof (rule preservesI)
  fix s :: state assume Q: "P (glob s) \<and> Q s"
  have "preserves (\<lambda>st. P (glob st) \<and> Q st) (forM [0..<length (deps s)] (subdeps_step e))"
    by (intro preserves_forM guarded_subdeps_step st add frame coll)
  from preservesD [OF this Q]
  show "P (glob (snd (subdeps_pass e s))) \<and> Q (snd (subdeps_pass e s))"
    by (simp add: subdeps_pass_def)
qed

lemma guarded_collectSubDependencies:
  assumes st: "stable P"
    and add: "\<And>path fl. preserves (\<lambda>st. P (glob st) \<and> Q st) (addDependency e path fl)"
    and frame: "\<And>st g. Q (st\<lparr>glob := g\<rparr>) = Q st"
    and coll: "\<And>st m. Q (st\<lparr>deps_collected := m\<rparr>) = Q st"
  shows "collectSubDependencies k e s = Some (r, s') \<Longrightarrow> P (glob s) \<and> Q s
         \<Longrightarrow> P (glob s') \<and> Q s'"
proof (induction k arbitrary: s)
  case 0
  then show ?case by simp
next
  case (Suc k)
  obtain r1 s1 where p: "subdeps_pass e s = (r1, s1)" by (cases "subdeps_pass e s")
  have Q1: "P (glob s1) \<and> Q s1"
    using preservesD [OF guarded_subdeps_pass [of P Q e, OF st add frame coll], of s] Suc.prems(2) p
    by simp
  show ?case
  proof (cases r1)
    case (Ok u)
    with Suc p Q1 show ?thesis by (auto split: if_splits)
  qed (use Suc.prems p Q1 in auto)
qed

lemma no_ignored_addDependency:
  "preserves (\<lambda>st. prefixes_to_ignore (glob st) = X \<and> (\<forall>d\<in>set (deps st). prefix d \<notin> set X))
     (addDependency e path fl)"
proof (rule preservesI)
  fix st :: state
  assume inv: "prefixes_to_ignore (glob st) = X \<and> (\<forall>d\<in>set (deps st). prefix d \<notin> set X)"
  obtain r g where c: "Dependency_ctor e path fl (glob st) = (r, g)"
    by (cases "Dependency_ctor e path fl (glob st)")
  from ignore_list_Dependency_ctor [of e path fl "glob st"] c inv
  have X: "prefixes_to_ignore g = X" by simp
  show "prefixes_to_ignore (glob (snd (addDependency e path fl st))) = X
        \<and> (\<forall>d\<in>set (deps (snd (addDependency e path fl st))). prefix d \<notin> set X)"
  proof (cases r)
    case (Ok dep)
    have old: "\<forall>d\<in>set (snd (merge_into dep (deps st))). prefix d \<notin> set X"
    proof
      fix d assume "d \<in> set (snd (merge_into dep (deps st)))"
      then have "prefix d \<in> prefix ` set (snd (merge_into dep (deps st)))" by (rule imageI)
      then have "prefix d \<in> prefix ` set (deps st)" by simp
      with inv show "prefix d \<notin> set X" by auto
    qed
    have new: "prefix dep \<notin> set X" if "isPrefixBundled g (prefix dep)"
      using that X by (auto simp: isPrefixBundled_def isPrefixIgnored_iff split: if_splits)
    from c Ok X old new show ?thesis
      by (auto simp: addDependency_eq deps_graph_add)
  qed (use c inv X in \<open>simp_all add: addDependency_eq\<close>)
qed

subsection \<open>Raising \<^verbatim>\<open>missing_prefixes\<close>\<close>

lemma forM_outcome:
  assumes "\<And>x s. fst (f x s) = Ok () \<or> fst (f x s) = Crash"
  shows "fst (forM xs f s) = Ok () \<or> fst (forM xs f s) = Crash"
proof (induction xs arbitrary: s)
  case Nil
  then show ?case by (simp add: returnM_def)
next
  case (Cons x xs)
  obtain r s' where fx: "f x s = (r, s')" by (cases "f x s")
  from assms [of x s] fx have "r = Ok () \<or> r = Crash" by simp
  then show ?case
  proof
    assume "r = Ok ()"
    with fx Cons [of s'] show ?thesis by (simp add: bindM_def)
  next
    assume "r = Crash"
    with fx show ?thesis by (simp add: bindM_def)
  qed
qed

lemma initSearchPaths_outcome:
  "fst (initSearchPaths e g) = Ok () \<or> fst (initSearchPaths e g) = Crash"
  unfolding initSearchPaths_def Let_def
  by (simp add: returnM_def) (intro impI forM_outcome, simp add: pureM_def addSearchPath_def)

lemma first_existing_outcome:
  "snd (first_existing e cand ps g) = g
   \<and> (fst (first_existing e cand ps g) = Crash \<or> (\<exists>v. fst (first_existing e cand ps g) = Ok v))"
proof (induction ps)
  case Nil
  then show ?case by (simp add: returnM_def)
next
  case (Cons p ps)
  from fileExists_cases [of e "cand p"] Cons show ?case
    by (auto simp: bindM_def pureM_def returnM_def)
qed

lemma location_unknown_frame:
  "location_unknown e pfx file g' = (fst (location_unknown e pfx file g), g')"
  using fileExists_cases [of e "pfx @ file"]
  by (auto simp: location_unknown_def bindM_def pureM_def returnM_def)

lemma Dependency_locate_raises_flag:
  assumes unknown: "fst (location_unknown e pfx file g) = Ok True"
    and bundled: "\<not> isPrefixIgnored g pfx"
    and ended: "fst (Dependency_locate e file pfx g) \<noteq> Crash"
  shows "missing_prefixes (snd (Dependency_locate e file pfx g))"
proof -
  define raise :: "globals \<Rightarrow> unit res \<times> globals"
    where "raise = (\<lambda>g. (Ok (), g\<lparr>missing_prefixes := True\<rparr>))"
  define S where "S =
     bindM (getsM searchPaths) (\<lambda>sps0.
     bindM (if length sps0 = 0 then initSearchPaths e else returnM ()) (\<lambda>_.
     bindM (getsM searchPaths) (\<lambda>sps.
     bindM (first_existing e (\<lambda>p. p @ file) sps) (\<lambda>found.
       case found of
         Some search_path \<Rightarrow> bindM raise (\<lambda>_. returnM search_path)
       | None \<Rightarrow> returnM pfx))))"
  define W where "W =
     bindM (warn (IncompleteName file)) (\<lambda>_.
     bindM raise (\<lambda>_.
     bindM (getUserInputDirForFile e file) (\<lambda>dir. addSearchPath dir)))"
  define T where "T = (\<lambda>p.
     bindM (getsM (\<lambda>g. isPrefixIgnored g p)) (\<lambda>ignored.
     bindM (if \<not> ignored then location_unknown e p file else returnM False) (\<lambda>unknown.
     bindM (if unknown then W else returnM ()) (\<lambda>_.
     returnM p))))"
  have u: "location_unknown e pfx file g' = (Ok True, g')" for g'
    using location_unknown_frame [of e pfx "file" g' g] unknown by simp
  have loc: "Dependency_locate e file pfx g = bindM S T g"
    unfolding Dependency_locate_def S_def T_def W_def raise_def
    by (simp add: bindM_def u)
  have keepT: "preserves missing_prefixes (T p)" for p
    unfolding T_def W_def raise_def
    by (auto intro!: preserves_location_unknown stable_warn stable_getUserInputDirForFile
        stable_addSearchPath preserves_update missing_prefixes_stable)
  have raiseW: "missing_prefixes (snd (W g'))" for g'
  proof -
    have "preserves missing_prefixes
            (bindM (getUserInputDirForFile e file) (\<lambda>dir. addSearchPath dir))"
      by (auto intro!: stable_getUserInputDirForFile stable_addSearchPath missing_prefixes_stable)
    from preservesD [OF this, of "g'\<lparr>cerr := cerr g' @ [IncompleteName file],
                                    missing_prefixes := True\<rparr>"]
    show ?thesis
      by (simp add: W_def raise_def warn_def bindM_def)
  qed
  obtain r0 g0 where init: "(if length (searchPaths g) = 0 then initSearchPaths e else returnM ()) g
                              = (r0, g0)"
    by (cases "(if length (searchPaths g) = 0 then initSearchPaths e else returnM ()) g")
  have ign0: "prefixes_to_ignore g0 = prefixes_to_ignore g"
  proof -
    have "preserves (\<lambda>x. prefixes_to_ignore x = prefixes_to_ignore g)
            (if length (searchPaths g) = 0 then initSearchPaths e else returnM ())"
      by (auto intro!: stable_initSearchPaths ignore_list_stable)
    from preservesD [OF this, of g] init show ?thesis by simp
  qed
  have r0: "r0 = Ok () \<or> r0 = Crash"
    using init initSearchPaths_outcome [of e g] by (auto simp: returnM_def split: if_splits)
  obtain r1 where fe: "first_existing e (\<lambda>p. p @ file) (searchPaths g0) g0 = (r1, g0)"
    using first_existing_outcome [of e "\<lambda>p. p @ file" "searchPaths g0" g0]
    by (cases "first_existing e (\<lambda>p. p @ file) (searchPaths g0) g0") auto
  have r1: "r1 = Crash \<or> (\<exists>v. r1 = Ok v)"
    using first_existing_outcome [of e "\<lambda>p. p @ file" "searchPaths g0" g0] fe by simp
  from r0 show ?thesis
  proof
    assume "r0 = Crash"
    with init have "fst (S g) = Crash"
      by (simp add: S_def bindM_def getsM_def)
    then have "fst (bindM S T g) = Crash"
      by (cases "S g") (simp add: bindM_def)
    with ended loc show ?thesis by simp
  next
    assume ok0: "r0 = Ok ()"
    from r1 show ?thesis
    proof
      assume "r1 = Crash"
      with init ok0 fe have "fst (S g) = Crash"
        by (simp add: S_def bindM_def getsM_def)
      then have "fst (bindM S T g) = Crash"
        by (cases "S g") (simp add: bindM_def)
      with ended loc show ?thesis by simp
    next
      assume "\<exists>v. r1 = Ok v"
      then obtain v where ok1: "r1 = Ok v" ..
      show ?thesis
      proof (cases v)
        case (Some sp)
        with init ok0 fe ok1 have "S g = (Ok sp, g0\<lparr>missing_prefixes := True\<rparr>)"
          by (simp add: S_def bindM_def getsM_def raise_def returnM_def)
        then have "bindM S T g = T sp (g0\<lparr>missing_prefixes := True\<rparr>)"
          by (simp add: bindM_def)
        moreover have "missing_prefixes (snd (T sp (g0\<lparr>missing_prefixes := True\<rparr>)))"
          by (rule preservesD [OF keepT]) simp
        ultimately show ?thesis by (simp add: loc)
      next
        case None
        with init ok0 fe ok1 have "S g = (Ok pfx, g0)"
          by (simp add: S_def bindM_def getsM_def returnM_def)
        then have "bindM S T g = T pfx g0"
          by (simp add: bindM_def)
        moreover have "\<not> isPrefixIgnored g0 pfx"
          using bundled isPrefixIgnored_cong [OF ign0, of pfx] by simp
        then have "T pfx g0 = bindM W (\<lambda>_. returnM pfx) g0"
          by (simp add: T_def bindM_def getsM_def u)
        moreover have "snd (bindM W (\<lambda>_. returnM pfx) g0) = snd (W g0)"
          by (cases "W g0") (auto simp: bindM_def returnM_def split: res.splits)
        ultimately show ?thesis using raiseW [of g0] by (simp add: loc)
      qed
    qed
  qed
qed

lemma Dependency_ctor_raises_flag:
  assumes "prefix_undetermined e path fl g" and "fst (Dependency_ctor e path fl g) \<noteq> Crash"
  shows "missing_prefixes (snd (Dependency_ctor e path fl g))"
proof -
  from assms(1) obtain c g1 where res: "Dependency_resolve e (rtrim path) fl g = (Ok c, g1)"
    and b: "isPrefixBundled g1 (add_slash (dirPrefix c))"
    and u: "fst (location_unknown e (add_slash (dirPrefix c)) (stripPrefix c) g1) = Ok True"
    by (auto simp: prefix_undetermined_def split: prod.splits res.splits)
  let ?pfx = "add_slash (dirPrefix c)"
  let ?loc = "Dependency_locate e (stripPrefix c) ?pfx g1"
  have ctor: "Dependency_ctor e path fl g =
                bindM (Dependency_locate e (stripPrefix c) ?pfx) (\<lambda>pfx.
                  returnM \<lparr>filename = stripPrefix c, prefix = pfx,
                           symlinks = (if c \<noteq> rtrim path then [rtrim path] else []),
                           new_name = stripPrefix c\<rparr>) g1"
    using res b by (simp add: Dependency_ctor_def Let_def bindM_def getsM_def)
  have f: "fst (Dependency_ctor e path fl g) = Crash \<longleftrightarrow> fst ?loc = Crash"
    and s: "snd (Dependency_ctor e path fl g) = snd ?loc"
    unfolding ctor by (cases ?loc; auto simp: bindM_def returnM_def split: res.splits)+
  from b have "\<not> isPrefixIgnored g1 ?pfx"
    by (auto simp: isPrefixBundled_def split: if_splits)
  from Dependency_locate_raises_flag [OF u this] assms(2) f s show ?thesis by simp
qed

lemma addDependency_raises_flag:
  assumes "prefix_undetermined e path fl (glob st)" and "fst (addDependency e path fl st) \<noteq> Crash"
  shows "missing_prefixes (glob (snd (addDependency e path fl st)))"
proof -
  obtain r g where c: "Dependency_ctor e path fl (glob st) = (r, g)"
    by (cases "Dependency_ctor e path fl (glob st)")
  with assms(2) have "r \<noteq> Crash"
    by (auto simp: addDependency_eq)
  with Dependency_ctor_raises_flag [OF assms(1)] c have "missing_prefixes g" by simp
  with c show ?thesis
    by (cases r) (simp_all add: addDependency_eq)
qed

subsection \<open>Keeping \<^verbatim>\<open>missing_prefixes\<close>\<close>

lemma flag_systemp: "preserves (\<lambda>g. missing_prefixes g = b) (systemp e c)"
  by (simp add: preserves_def systemp_def)

lemma flag_die: "preserves (\<lambda>g. missing_prefixes g = b) (die d)"
  by (simp add: preserves_def die_def)

lemma preserves_case_prod [intro!]:
  "(\<And>a b. preserves P (f a b)) \<Longrightarrow> preserves P (case x of (a, b) \<Rightarrow> f a b)"
  by (cases x) simp

lemma flag_copyFile: "preserves (\<lambda>g. missing_prefixes g = b) (copyFile e from_f to_f)"
  unfolding copyFile_def by (auto intro!: flag_systemp flag_die)

lemma flag_createDestDir: "preserves (\<lambda>g. missing_prefixes g = b) (createDestDir e)"
  unfolding createDestDir_def by (auto intro!: flag_systemp flag_die)

lemma flag_copyYourself: "preserves (\<lambda>g. missing_prefixes g = b) (copyYourself e d)"
  unfolding copyYourself_def by (auto intro!: flag_systemp flag_die flag_copyFile)

lemma flag_changeLibPathsOnFile:
  "preserves (\<lambda>st. missing_prefixes (glob st)) (changeLibPathsOnFile e fl)"
proof -
  have a: "preserves (\<lambda>st. missing_prefixes (glob st))
             (\<lambda>st. if deps_collected st fl = None then collectDependencies e fl st else (Ok (), st))"
    using glob_collectDependencies [OF missing_prefixes_stable, of e fl]
    by (simp add: preserves_def)
  have b: "preserves (\<lambda>st. missing_prefixes (glob st)) (deps_per_file_at fl)"
    by (simp add: preserves_def deps_per_file_at_def split: option.splits)
  have c: "preserves (\<lambda>st. missing_prefixes (glob st)) (liftG (fixFileThatDependsOnMe e d fl))" for d
    using preserves_liftG [OF flag_fixFileThatDependsOnMe [of True e d fl]] by simp
  show ?thesis
    unfolding changeLibPathsOnFile_def
    by (intro preserves_bindM a b preserves_forM c)
qed

lemma flag_perform: "preserves (\<lambda>st. missing_prefixes (glob st)) (perform e op)"
proof (cases op)
  case (AddDependency path fl)
  then show ?thesis by (simp add: glob_addDependency [OF missing_prefixes_stable])
next
  case (CollectDependencies fl)
  then show ?thesis by (simp add: glob_collectDependencies [OF missing_prefixes_stable])
next
  case SubdepsPass
  then show ?thesis by (simp add: glob_subdeps_pass [OF missing_prefixes_stable])
next
  case CreateDestDir
  with preserves_liftG [OF flag_createDestDir [of True e]] show ?thesis by simp
next
  case (CopyYourself d)
  with preserves_liftG [OF flag_copyYourself [of True e d]] show ?thesis by simp
next
  case (CopyFile from_f to_f)
  with preserves_liftG [OF flag_copyFile [of True e from_f to_f]] show ?thesis by simp
next
  case (ChangeLibPathsOnFile fl)
  then show ?thesis by (simp add: flag_changeLibPathsOnFile)
qed

lemma after_keeps_flag:
  "missing_prefixes (glob st) \<Longrightarrow> missing_prefixes (glob (after e ops st))"
  unfolding after_def
proof (induction ops arbitrary: st)
  case Nil
  then show ?case by simp
next
  case (Cons op ops)
  from preservesD [OF flag_perform Cons.prems, of e op]
  have "missing_prefixes (glob (snd (perform e op st)))" .
  from Cons.IH [OF this] show ?case by simp
qed

lemma rewrite_by_bare_name:
  assumes flag: "missing_prefixes g"
    and ok: "list_all (\<lambda>old. system e (change_command file old (getInnerPath g d)) = 0)
               (getOriginalPath d # symlinks d)"
  shows "\<exists>rest. cmds (snd (fixFileThatDependsOnMe e d file g)) =
           cmds g
           @ map (\<lambda>old. change_command file old (getInnerPath g d)) (getOriginalPath d # symlinks d)
           @ change_command file (filename d) (getInnerPath g d) # rest"
proof -
  let ?inner = "getInnerPath g d"
  let ?c = "\<lambda>old. change_command file old ?inner"
  let ?g1 = "g\<lparr>cmds := cmds g @ map ?c (getOriginalPath d # symlinks d)\<rparr>"
  have main: "forM (getOriginalPath d # symlinks d) (\<lambda>old. changeInstallName e file old ?inner) g
                = (Ok (), ?g1)"
    using ok by (rule forM_changeInstallName_ok)
  let ?tail = "bindM (changeInstallName e file (filename d) ?inner) (\<lambda>_.
                 forM (symlinks d) (\<lambda>s. changeInstallName e file s ?inner))"
  have unfolded: "fixFileThatDependsOnMe e d file g = ?tail ?g1"
  proof -
    have "fixFileThatDependsOnMe e d file g =
            bindM (forM (getOriginalPath d # symlinks d)
                     (\<lambda>old. changeInstallName e file old ?inner))
              (\<lambda>_. bindM (getsM missing_prefixes) (\<lambda>missing. if missing then ?tail else returnM ())) g"
      by (simp add: fixFileThatDependsOnMe_def bindM_def getsM_def split: prod.splits res.splits)
    also have "\<dots> = ?tail ?g1"
      using main flag by (simp add: bindM_def getsM_def)
    finally show ?thesis .
  qed
  let ?g2 = "?g1\<lparr>cmds := cmds ?g1 @ [?c (filename d)]\<rparr>"
  have "\<exists>rest. cmds (snd (?tail ?g1)) = cmds ?g2 @ rest"
  proof (cases "system e (?c (filename d)) = 0")
    case True
    have "preserves (\<lambda>g. \<exists>rest. cmds g = cmds ?g2 @ rest)
            (forM (symlinks d) (\<lambda>s. changeInstallName e file s ?inner))"
      by (rule preserves_forM) (rule cmds_extended_changeInstallName)
    from preservesD [OF this, of ?g2] True show ?thesis
      by (simp add: bindM_def changeInstallName_eq)
  next
    case False
    then show ?thesis by (simp add: bindM_def changeInstallName_eq)
  qed
  then show ?thesis
    unfolding unfolded by simp
qed

subsection \<open>The end of the expansion\<close>

lemma names_growth_addDependency:
  "preserves (\<lambda>s. length (deps s) + a \<le> card (filename ` set (deps s)) + b)
     (addDependency e path fl)"
proof (rule preservesI)
  fix st :: state assume inv: "length (deps st) + a \<le> card (filename ` set (deps st)) + b"
  obtain r g where c: "Dependency_ctor e path fl (glob st) = (r, g)"
    by (cases "Dependency_ctor e path fl (glob st)")
  show "length (deps (snd (addDependency e path fl st))) + a
          \<le> card (filename ` set (deps (snd (addDependency e path fl st)))) + b"
  proof (cases r)
    case (Ok dep)
    show ?thesis
    proof (cases "isPrefixBundled g (prefix dep) \<and> filename dep \<notin> filename ` set (deps st)")
      case True
      then have "card (insert (filename dep) (filename ` set (deps st)))
                   = Suc (card (filename ` set (deps st)))"
        by (intro card_insert_disjoint) simp_all
      with c Ok True inv show ?thesis
        by (simp add: addDependency_eq deps_graph_add)
    next
      case False
      with c Ok inv show ?thesis
        by (auto simp: addDependency_eq deps_graph_add)
    qed
  qed (use c inv in \<open>simp_all add: addDependency_eq\<close>)
qed

lemma names_growth_subdeps_pass:
  assumes "subdeps_pass e st = (r, st')" and "length (deps st') \<noteq> length (deps st)"
  shows "card (filename ` set (deps st)) < card (filename ` set (deps st'))"
proof -
  let ?Q = "\<lambda>s. length (deps s) + card (filename ` set (deps st))
                   \<le> card (filename ` set (deps s)) + length (deps st)"
  have "preserves ?Q (subdeps_pass e)"
    by (rule tables_subdeps_pass) (simp_all add: names_growth_addDependency)
  from preservesD [OF this, of st] assms(1)
  have "length (deps st') + card (filename ` set (deps st))
          \<le> card (filename ` set (deps st')) + length (deps st)"
    by simp
  moreover from length_subdeps_pass [of st e] assms have "length (deps st) < length (deps st')"
    by simp
  ultimately show ?thesis by arith
qed

lemma unfinished_expansion_adds_names:
  assumes "collectSubDependencies k e st = None"
  shows "\<exists>st'. passes k e st = Some st'
               \<and> card (filename ` set (deps st)) + k \<le> card (filename ` set (deps st'))"
  using assms
proof (induction k arbitrary: st)
  case 0
  then show ?case by simp
next
  case (Suc k)
  obtain r1 st1 where p: "subdeps_pass e st = (r1, st1)" by (cases "subdeps_pass e st")
  from Suc.prems p obtain u where ok: "r1 = Ok u"
    by (cases r1) auto
  from Suc.prems p ok have ne: "length (deps st1) \<noteq> length (deps st)"
    and rest: "collectSubDependencies k e st1 = None"
    by (auto split: if_splits)
  from names_growth_subdeps_pass [OF p ne]
  have grow: "card (filename ` set (deps st)) + 1 \<le> card (filename ` set (deps st1))" by simp
  from Suc.IH [OF rest] obtain st' where
    "passes k e st1 = Some st'"
    "card (filename ` set (deps st1)) + k \<le> card (filename ` set (deps st'))" by blast
  with p ok grow show ?case by auto
qed

lemma expansion_outcome:
  assumes "\<forall>k<n. \<forall>s. passes k e st = Some s \<longrightarrow> fst (subdeps_pass e s) = Ok ()"
    and "collectSubDependencies n e st = Some (r, st')"
  shows "r = Ok ()"
  using assms
proof (induction n arbitrary: st)
  case 0
  then show ?case by simp
next
  case (Suc n)
  obtain r1 st1 where p: "subdeps_pass e st = (r1, st1)" by (cases "subdeps_pass e st")
  from Suc.prems(1) have "fst (subdeps_pass e st) = Ok ()" by auto
  with p have ok: "r1 = Ok ()" by simp
  show ?case
  proof (cases "length (deps st1) = length (deps st)")
    case True
    with Suc.prems(2) p ok show ?thesis by simp
  next
    case False
    with Suc.prems(2) p ok have rest: "collectSubDependencies n e st1 = Some (r, st')" by simp
    have "\<forall>k<n. \<forall>s. passes k e st1 = Some s \<longrightarrow> fst (subdeps_pass e s) = Ok ()"
    proof (intro allI impI)
      fix k s assume "k < n" and "passes k e st1 = Some s"
      then have "Suc k < Suc n" and "passes (Suc k) e st = Some s" using p ok by simp_all
      with Suc.prems(1) show "fst (subdeps_pass e s) = Ok ()" by blast
    qed
    from Suc.IH [OF this rest] show ?thesis .
  qed
qed

lemma expansion_shape:
  assumes "collectSubDependencies n e st = Some (Ok (), st')"
  shows "\<exists>k st1. k < n \<and> passes k e st = Some st1 \<and> subdeps_pass e st1 = (Ok (), st')
            \<and> length (deps st) + k \<le> length (deps st1)
            \<and> length (deps st') = length (deps st1)
            \<and> (\<forall>m>k. collectSubDependencies m e st = Some (Ok (), st'))"
  using assms
proof (induction n arbitrary: st)
  case 0
  then show ?case by simp
next
  case (Suc n)
  obtain r1 st1 where p: "subdeps_pass e st = (r1, st1)" by (cases "subdeps_pass e st")
  show ?case
  proof (cases r1)
    case (Ok u)
    show ?thesis
    proof (cases "length (deps st1) = length (deps st)")
      case True
      with Suc.prems p Ok have e1: "st' = st1" by simp
      have "\<forall>m>0. collectSubDependencies m e st = Some (Ok (), st')"
      proof (intro allI impI)
        fix m :: nat assume "0 < m"
        then obtain m' where "m = Suc m'" by (cases m) auto
        with p Ok True e1 show "collectSubDependencies m e st = Some (Ok (), st')" by simp
      qed
      with p Ok True e1 show ?thesis
        by (intro exI [of _ 0] exI [of _ st]) simp
    next
      case False
      with Suc.prems p Ok have "collectSubDependencies n e st1 = Some (Ok (), st')" by simp
      from Suc.IH [OF this] obtain k s where k: "k < n" and ps: "passes k e st1 = Some s"
        and last: "subdeps_pass e s = (Ok (), st')" and same: "length (deps st') = length (deps s)"
        and grown: "length (deps st1) + k \<le> length (deps s)"
        and all: "\<forall>m>k. collectSubDependencies m e st1 = Some (Ok (), st')" by blast
      from length_subdeps_pass [of st e] p False have "length (deps st) + 1 \<le> length (deps st1)"
        by simp
      with grown have grown': "length (deps st) + Suc k \<le> length (deps s)" by simp
      have "\<forall>m>Suc k. collectSubDependencies m e st = Some (Ok (), st')"
      proof (intro allI impI)
        fix m assume "Suc k < m"
        then obtain m' where m: "m = Suc m'" and "k < m'" by (cases m) auto
        with all have "collectSubDependencies m' e st1 = Some (Ok (), st')" by blast
        with p Ok False m show "collectSubDependencies m e st = Some (Ok (), st')" by simp
      qed
      with k ps last same grown' p Ok show ?thesis
        by (intro exI [of _ "Suc k"] exI [of _ s]) simp
    qed
  qed (use Suc.prems p in auto)
qed

lemma expansion_over_within:
  assumes "finite F" and "leafs_within F e st"
  shows "collectSubDependencies (card F - card (filename ` set (deps st)) + 1) e st \<noteq> None"
proof (cases "deps st = []")
  case True
  then have "collectSubDependencies (Suc (card F)) e st = Some (Ok (), st)"
    by (rule collectSubDependencies_no_deps)
  with True show ?thesis by simp
next
  case False
  let ?n0 = "card (filename ` set (deps st))"
  let ?K = "card F - ?n0 + 1"
  from assms(2) have "\<forall>st'. passes 0 e st = Some st' \<longrightarrow> filename ` set (deps st') \<subseteq> F"
    unfolding leafs_within_def by blast
  then have "filename ` set (deps st) \<subseteq> F" by simp
  with assms(1) have l0: "?n0 \<le> card F" by (intro card_mono)
  from False have "filename ` set (deps st) \<noteq> {}" by simp
  then have "0 < ?n0" by (simp add: card_gt_0_iff)
  with l0 have K: "?K \<le> card F" by arith
  show ?thesis
  proof
    assume "collectSubDependencies ?K e st = None"
    from unfinished_expansion_adds_names [OF this] obtain st' where
      p: "passes ?K e st = Some st'" and len: "?n0 + ?K \<le> card (filename ` set (deps st'))"
      by blast
    from assms(2) K p have "filename ` set (deps st') \<subseteq> F"
      unfolding leafs_within_def by blast
    with assms(1) have "card (filename ` set (deps st')) \<le> card F"
      by (intro card_mono)
    with len l0 show False by arith
  qed
qed
section \<open>The claims of the specification\<close>

subsection \<open>The destination directory\<close>

text \<open>
  Claim C2, as the spec states it, fails: with the destination directory present and
  neither permission given, \<^verbatim>\<open>createDestDir\<close> returns normally.  It runs no command and
  reports nothing; the existing directory is used as it is.
\<close>

theorem createDestDir_existing_dir_is_not_fatal:
  "createDestDir env_dest_exists (initial_globals []) = (Ok (), initial_globals [])"
  by (simp add: createDestDir_def monad_defs env_dest_exists_def initial_globals_def
      fileExists_def)

text \<open>
  Claim C2, amended.  Let \<open>ex\<close> say whether the destination directory exists.
  \<^item> Present and overwriting not permitted: nothing is run and the call returns, whatever
    the permission to create.
  \<^item> Present and overwriting permitted: \<^verbatim>\<open>rm -r\<close> is run; if it fails the run ends with
    status 1; otherwise the directory counts as absent.
  \<^item> Absent (or just removed) and creating permitted: \<^verbatim>\<open>mkdir -p\<close> is run, and its
    failure ends the run with status 1.
  \<^item> Absent (or just removed) and creating not permitted: the run ends with status 1
    and no further command.
\<close>

theorem createDestDir_policy:
  assumes "fileExists e (dest_folder_str g) = Ok ex"
  shows "createDestDir e g =
     (let dest = dest_folder_str g in
      if ex \<and> overwrite_dir g then
        (if system e (rm_command dest) \<noteq> 0
         then (Exit 1, g\<lparr>cmds := cmds g @ [rm_command dest],
                          cerr := cerr g @ [OverwriteDestFailed]\<rparr>)
         else if create_dir g then
           (if system e (mkdir_command dest) \<noteq> 0
            then (Exit 1, g\<lparr>cmds := cmds g @ [rm_command dest, mkdir_command dest],
                             cerr := cerr g @ [CreateDestFailed]\<rparr>)
            else (Ok (), g\<lparr>cmds := cmds g @ [rm_command dest, mkdir_command dest]\<rparr>))
         else (Exit 1, g\<lparr>cmds := cmds g @ [rm_command dest],
                          cerr := cerr g @ [DestDoesNotExist]\<rparr>))
      else if ex then (Ok (), g)
      else if create_dir g then
        (if system e (mkdir_command dest) \<noteq> 0
         then (Exit 1, g\<lparr>cmds := cmds g @ [mkdir_command dest],
                          cerr := cerr g @ [CreateDestFailed]\<rparr>)
         else (Ok (), g\<lparr>cmds := cmds g @ [mkdir_command dest]\<rparr>))
      else (Exit 1, g\<lparr>cerr := cerr g @ [DestDoesNotExist]\<rparr>))"
  using assms by (simp add: createDestDir_def monad_defs Let_def)

text \<open>
  The policy at work: the default directory is there, overwriting and creating are
  permitted, so the directory is removed and made again.
\<close>

theorem createDestDir_policy_witness:
  "fileExists env_dest_exists ''./libs/'' = Ok True \<and>
   createDestDir env_dest_exists
       ((initial_globals [])\<lparr>overwrite_dir := True, create_dir := True\<rparr>) =
     (Ok (), (initial_globals [])\<lparr>overwrite_dir := True, create_dir := True,
                cmds := [rm_command ''./libs/'', mkdir_command ''./libs/'']\<rparr>)"
proof -
  have ex: "fileExists env_dest_exists ''./libs/'' = Ok True"
    by (simp add: fileExists_def env_dest_exists_def)
  have "fileExists env_dest_exists
          (dest_folder_str ((initial_globals [])\<lparr>overwrite_dir := True, create_dir := True\<rparr>))
        = Ok True"
    using ex by (simp add: initial_globals_def)
  from createDestDir_policy [OF this] ex show ?thesis
    by (simp add: initial_globals_def env_dest_exists_def Let_def)
qed

subsection \<open>Copying a file\<close>

text \<open>
  Claim C10.  A copy of a file onto itself skips the check of the destination and the
  \<^verbatim>\<open>cp\<close> command: the only command is \<^verbatim>\<open>chmod +w\<close>, whatever \<^verbatim>\<open>overwrite_files\<close> is and
  whether or not the file exists, and the call fails only if that command does.  In
  general the call ends with status 1 before any command is run exactly when the two
  names differ, overwriting is disabled and the destination exists.
\<close>

theorem copyFile_self_copy:
  "copyFile e f f g =
     (if system e (chmod_command f) \<noteq> 0
      then (Exit 1, g\<lparr>cmds := cmds g @ [chmod_command f], cerr := cerr g @ [ChmodFailed f]\<rparr>)
      else (Ok (), g\<lparr>cmds := cmds g @ [chmod_command f]\<rparr>))
   \<and> ((fst (copyFile e from_f to_f g) = Exit 1
        \<and> cmds (snd (copyFile e from_f to_f g)) = cmds g)
       = (from_f \<noteq> to_f \<and> \<not> overwrite_files g \<and> fileExists e to_f = Ok True))"
proof
  show "copyFile e f f g =
     (if system e (chmod_command f) \<noteq> 0
      then (Exit 1, g\<lparr>cmds := cmds g @ [chmod_command f], cerr := cerr g @ [ChmodFailed f]\<rparr>)
      else (Ok (), g\<lparr>cmds := cmds g @ [chmod_command f]\<rparr>))"
    by (simp add: copyFile_def monad_defs)
  show "(fst (copyFile e from_f to_f g) = Exit 1
         \<and> cmds (snd (copyFile e from_f to_f g)) = cmds g)
        = (from_f \<noteq> to_f \<and> \<not> overwrite_files g \<and> fileExists e to_f = Ok True)"
    using fileExists_cases [of e to_f]
    by (auto simp: copyFile_def monad_defs split: if_splits)
qed

subsection \<open>A reference that cannot be canonicalised\<close>

text \<open>
  Claim C8.  For a reference that is not relocatable and that \<^verbatim>\<open>realpath\<close> cannot
  resolve, the choice of the original file in the constructor of \<^verbatim>\<open>Dependency\<close> writes
  the warning and returns the trimmed reference itself; it never ends the run.  The
  warning stays on \<^verbatim>\<open>std::cerr\<close> however the constructor ends, and a \<^verbatim>\<open>Dependency\<close>
  it returns has the leaf of the reference as its file name and no alias.
\<close>

theorem Dependency_resolve_missing_file:
  assumes "\<not> isRpath (rtrim path)" and "realpath e (rtrim path) = None"
  shows "Dependency_resolve e (rtrim path) df g =
           (Ok (rtrim path), g\<lparr>cerr := cerr g @ [CannotResolvePath (rtrim path)]\<rparr>)
         \<and> CannotResolvePath (rtrim path) \<in> set (cerr (snd (Dependency_ctor e path df g)))
         \<and> (\<forall>d g'. Dependency_ctor e path df g = (Ok d, g') \<longrightarrow>
               filename d = stripPrefix (rtrim path) \<and> symlinks d = [])"
proof (intro conjI allI impI)
  let ?g1 = "g\<lparr>cerr := cerr g @ [CannotResolvePath (rtrim path)]\<rparr>"
  show res: "Dependency_resolve e (rtrim path) df g = (Ok (rtrim path), ?g1)"
    using assms by (simp add: Dependency_resolve_def monad_defs)
  let ?rest = "\<lambda>original_file.
        (let syms = (if original_file \<noteq> rtrim path then [rtrim path] else []);
             file = stripPrefix original_file;
             pfx = add_slash (dirPrefix original_file)
         in
           bindM (getsM (\<lambda>g. isPrefixBundled g pfx)) (\<lambda>bundled.
             if \<not> bundled
             then returnM \<lparr>filename = file, prefix = pfx, symlinks = syms, new_name = []\<rparr>
             else
               bindM (Dependency_locate e file pfx) (\<lambda>pfx.
                 returnM \<lparr>filename = file, prefix = pfx, symlinks = syms,
                          new_name = file\<rparr>)))"
  have ctor: "Dependency_ctor e path df g = ?rest (rtrim path) ?g1"
    using res by (simp add: Dependency_ctor_def Let_def bindM_def)
  have "preserves (\<lambda>g. CannotResolvePath (rtrim path) \<in> set (cerr g)) (?rest (rtrim path))"
    unfolding Let_def
    by (auto intro!: stable_Dependency_locate cerr_member_stable)
  then show "CannotResolvePath (rtrim path) \<in> set (cerr (snd (Dependency_ctor e path df g)))"
    unfolding ctor by (rule preservesD) simp
  fix d g' assume "Dependency_ctor e path df g = (Ok d, g')"
  then have "?rest (rtrim path) ?g1 = (Ok d, g')" by (simp add: ctor)
  then show "filename d = stripPrefix (rtrim path)" and "symlinks d = []"
    by (auto simp: Let_def returnM_def getsM_def if_distribR elim!: bindM_Ok_elim split: if_splits)
qed

text \<open>
  The reference \<^verbatim>\<open>/opt/lib/libmissing.dylib\<close>, followed by two blanks in the load
  command, where no such file exists.
\<close>

theorem Dependency_resolve_missing_file_witness:
  "rtrim ''/opt/lib/libmissing.dylib  '' = ''/opt/lib/libmissing.dylib''
   \<and> \<not> isRpath ''/opt/lib/libmissing.dylib''
   \<and> realpath env_nothing ''/opt/lib/libmissing.dylib'' = None
   \<and> Dependency_resolve env_nothing ''/opt/lib/libmissing.dylib'' ''/app/bin/A''
        (initial_globals []) =
       (Ok ''/opt/lib/libmissing.dylib'',
        (initial_globals [])\<lparr>cerr := [CannotResolvePath ''/opt/lib/libmissing.dylib'']\<rparr>)
   \<and> CannotResolvePath ''/opt/lib/libmissing.dylib''
        \<in> set (cerr (snd (Dependency_ctor env_nothing ''/opt/lib/libmissing.dylib  ''
                            ''/app/bin/A'' (initial_globals []))))"
proof -
  have t: "rtrim ''/opt/lib/libmissing.dylib  '' = ''/opt/lib/libmissing.dylib''"
    by (simp add: rtrim_def isspace_def)
  have n: "\<not> isRpath ''/opt/lib/libmissing.dylib''"
    by (simp add: isRpath_def str_find_def starts_with_def)
  have r: "realpath env_nothing ''/opt/lib/libmissing.dylib'' = None"
    by (simp add: env_nothing_def)
  from Dependency_resolve_missing_file
         [of "''/opt/lib/libmissing.dylib  ''" env_nothing "''/app/bin/A''" "initial_globals []"]
       t n r
  show ?thesis by (simp add: initial_globals_def)
qed

subsection \<open>Rewriting by the bare file name\<close>

text \<open>
  Claim C9.  Let the constructor of \<^verbatim>\<open>Dependency\<close> find, for one reference, that the
  library is not in the directory its original file names (the prefix could not be
  determined), and let \<^verbatim>\<open>addDependency\<close> return for that reference.  Then
  \<^verbatim>\<open>missing_prefixes\<close> is set, and it is still set after any operations that follow.
  From then on the rewrite of the references of a file to a dependency \<open>d\<close>, whichever
  dependency it is, goes on after the rewrites keyed on the original path and on every
  alias (when these succeed; a failing one ends the run) with a rewrite keyed on the
  bare file name.
\<close>

theorem bare_filename_rewrite_when_prefix_missing:
  assumes "prefix_undetermined e path fl (glob st)"
    and "fst (addDependency e path fl st) = Ok ()"
    and "s = after e ops (snd (addDependency e path fl st))"
  shows "missing_prefixes (glob (snd (addDependency e path fl st)))
     \<and> missing_prefixes (glob s)
     \<and> (list_all (\<lambda>old. system e (change_command file old (getInnerPath (glob s) d)) = 0)
            (getOriginalPath d # symlinks d) \<longrightarrow>
          (\<exists>rest. cmds (snd (fixFileThatDependsOnMe e d file (glob s))) =
             cmds (glob s)
             @ map (\<lambda>old. change_command file old (getInnerPath (glob s) d))
                 (getOriginalPath d # symlinks d)
             @ change_command file (filename d) (getInnerPath (glob s) d) # rest))"
proof (intro conjI impI)
  from assms(2) have "fst (addDependency e path fl st) \<noteq> Crash" by simp
  with assms(1) show raised: "missing_prefixes (glob (snd (addDependency e path fl st)))"
    by (rule addDependency_raises_flag)
  then show flag: "missing_prefixes (glob s)"
    unfolding assms(3) by (rule after_keeps_flag)
  assume "list_all (\<lambda>old. system e (change_command file old (getInnerPath (glob s) d)) = 0)
            (getOriginalPath d # symlinks d)"
  with flag show "\<exists>rest. cmds (snd (fixFileThatDependsOnMe e d file (glob s))) =
             cmds (glob s)
             @ map (\<lambda>old. change_command file old (getInnerPath (glob s) d))
                 (getOriginalPath d # symlinks d)
             @ change_command file (filename d) (getInnerPath (glob s) d) # rest"
    by (rule rewrite_by_bare_name)
qed

text \<open>
  \<^verbatim>\<open>/app/bin/A\<close> refers to \<^verbatim>\<open>/opt/lib/libX.dylib\<close>, which is not there; the library is
  found in the search path \<^verbatim>\<open>/first/\<close>, and the flag is raised.  After the copy of
  \<^verbatim>\<open>/app/bin/A\<close> onto itself, its references to another library, \<open>dep_libX\<close>, are
  rewritten by the path, by the alias, and by the bare name.  With no search path the
  user is asked, answers \<^verbatim>\<open>/first\<close>, and the flag is raised as well.
\<close>

theorem bare_filename_rewrite_witness:
  "\<not> missing_prefixes (glob state_two_paths)
   \<and> prefix_undetermined env_two_paths ''/opt/lib/libX.dylib'' ''/app/bin/A''
        (glob state_two_paths)
   \<and> fst (addDependency env_two_paths ''/opt/lib/libX.dylib'' ''/app/bin/A'' state_two_paths)
       = Ok ()
   \<and> missing_prefixes
        (glob (snd (addDependency env_two_paths ''/opt/lib/libX.dylib'' ''/app/bin/A''
                      state_two_paths)))
   \<and> change_command ''/app/bin/A'' ''libX.dylib'' ''@executable_path/../libs/libX.dylib''
       \<in> set (cmds (snd (fixFileThatDependsOnMe env_two_paths dep_libX ''/app/bin/A''
              (glob (after env_two_paths [CopyFile ''/app/bin/A'' ''/app/bin/A'']
                 (snd (addDependency env_two_paths ''/opt/lib/libX.dylib'' ''/app/bin/A''
                         state_two_paths)))))))
   \<and> prefix_undetermined env_two_paths ''/opt/lib/libX.dylib'' ''/app/bin/A''
        (glob (initial_state [''/first'']))
   \<and> fst (addDependency env_two_paths ''/opt/lib/libX.dylib'' ''/app/bin/A''
            (initial_state [''/first''])) = Ok ()
   \<and> missing_prefixes
        (glob (snd (addDependency env_two_paths ''/opt/lib/libX.dylib'' ''/app/bin/A''
                      (initial_state [''/first'']))))"
proof -
  let ?st1 = "snd (addDependency env_two_paths ''/opt/lib/libX.dylib'' ''/app/bin/A''
                     state_two_paths)"
  let ?s = "after env_two_paths [CopyFile ''/app/bin/A'' ''/app/bin/A''] ?st1"
  have before: "\<not> missing_prefixes (glob state_two_paths)"
    by code_simp
  have pu: "prefix_undetermined env_two_paths ''/opt/lib/libX.dylib'' ''/app/bin/A''
              (glob state_two_paths)"
    by code_simp
  have ret: "fst (addDependency env_two_paths ''/opt/lib/libX.dylib'' ''/app/bin/A''
                    state_two_paths) = Ok ()"
    by code_simp
  have ok: "list_all
        (\<lambda>old. system env_two_paths
                 (change_command ''/app/bin/A'' old (getInnerPath (glob ?s) dep_libX)) = 0)
        (getOriginalPath dep_libX # symlinks dep_libX)"
    by (simp add: env_two_paths_def list_all_iff)
  have inner: "getInnerPath (glob ?s) dep_libX = ''@executable_path/../libs/libX.dylib''"
    by code_simp
  have name: "filename dep_libX = ''libX.dylib''"
    by (simp add: dep_libX_def)
  from bare_filename_rewrite_when_prefix_missing
         [OF pu ret refl, of "[CopyFile ''/app/bin/A'' ''/app/bin/A'']" "''/app/bin/A''" dep_libX] ok
  have raised: "missing_prefixes (glob ?st1)"
    and "\<exists>rest. cmds (snd (fixFileThatDependsOnMe env_two_paths dep_libX ''/app/bin/A'' (glob ?s))) =
       cmds (glob ?s)
       @ map (\<lambda>old. change_command ''/app/bin/A'' old (getInnerPath (glob ?s) dep_libX))
           (getOriginalPath dep_libX # symlinks dep_libX)
       @ change_command ''/app/bin/A'' (filename dep_libX) (getInnerPath (glob ?s) dep_libX) # rest"
    by blast+
  then obtain rest where
    "cmds (snd (fixFileThatDependsOnMe env_two_paths dep_libX ''/app/bin/A'' (glob ?s))) =
       cmds (glob ?s)
       @ map (\<lambda>old. change_command ''/app/bin/A'' old (getInnerPath (glob ?s) dep_libX))
           (getOriginalPath dep_libX # symlinks dep_libX)
       @ change_command ''/app/bin/A'' (filename dep_libX) (getInnerPath (glob ?s) dep_libX) # rest"
    by blast
  then have bare: "change_command ''/app/bin/A'' ''libX.dylib'' ''@executable_path/../libs/libX.dylib''
       \<in> set (cmds (snd (fixFileThatDependsOnMe env_two_paths dep_libX ''/app/bin/A'' (glob ?s))))"
    unfolding inner name by simp
  have pu': "prefix_undetermined env_two_paths ''/opt/lib/libX.dylib'' ''/app/bin/A''
               (glob (initial_state [''/first'']))"
    by code_simp
  have ret': "fst (addDependency env_two_paths ''/opt/lib/libX.dylib'' ''/app/bin/A''
                     (initial_state [''/first''])) = Ok ()"
    by code_simp
  from bare_filename_rewrite_when_prefix_missing [OF pu' ret' refl, of "[]"]
  have asked: "missing_prefixes
        (glob (snd (addDependency env_two_paths ''/opt/lib/libX.dylib'' ''/app/bin/A''
                      (initial_state [''/first'']))))"
    by blast
  with before pu ret raised bare pu' ret' show ?thesis by blast
qed

subsection \<open>Ignored prefixes\<close>

text \<open>
  Claim C4, as the spec states it, fails for a library in a directory below the ignored
  one: \<^verbatim>\<open>isPrefixIgnored\<close> compares the directory of the library with each ignored
  prefix for equality.  With \<^verbatim>\<open>/custom/ignored/\<close> ignored, the library
  \<^verbatim>\<open>/custom/ignored/sub/libz.dylib\<close> is added to \<^verbatim>\<open>deps\<close>.
\<close>

theorem subdirectory_of_ignored_prefix_is_added:
  "map getOriginalPath
     (deps (snd (addDependency env_ignored ''/custom/ignored/sub/libz.dylib'' ''/app/bin/A''
                   state_ignoring)))
   = [''/custom/ignored/sub/libz.dylib'']"
proof -
  have g: "glob state_ignoring = (initial_globals [])\<lparr>prefixes_to_ignore := [''/custom/ignored/'']\<rparr>"
    by (simp add: state_ignoring_eq)
  have "Dependency_ctor env_ignored ''/custom/ignored/sub/libz.dylib'' ''/app/bin/A''
          (glob state_ignoring) =
        (Ok \<lparr>filename = ''libz.dylib'', prefix = ''/custom/ignored/sub/'', symlinks = [],
             new_name = ''libz.dylib''\<rparr>, glob state_ignoring)"
    using Dependency_ctor_present
      [of "''/custom/ignored/sub/libz.dylib''" env_ignored "''/custom/ignored/sub/libz.dylib''"
         "glob state_ignoring" "''/app/bin/A''"]
    by (simp add: g string_eval env_ignored_def isPrefixBundled_def isPrefixIgnored_def
        fileExists_def initial_globals_def)
  then show ?thesis
    by (simp add: addDependency_eq graph_add_def Let_def g string_eval isPrefixBundled_def
        isPrefixIgnored_def initial_globals_def state_ignoring_eq initial_state_def
        getOriginalPath_def)
qed

text \<open>
  Claim C4, amended.  A reference for which the constructor of \<^verbatim>\<open>Dependency\<close> returns
  a library whose directory is one of the ignored prefixes (however the reference was
  resolved) adds no entry: \<^verbatim>\<open>addDependency\<close> returns, \<^verbatim>\<open>deps\<close> has the entries it had,
  with the same paths, and the list of the referencing file is as before (empty if the
  file had none).  So no entry of \<^verbatim>\<open>deps\<close> ever has an ignored prefix as its directory:
  this holds at the start, for any list of ignored prefixes, and survives every
  \<^verbatim>\<open>addDependency\<close>, the inspection of any file, every pass of the expansion and the
  whole expansion, however they end.  \<^verbatim>\<open>ignore_prefix\<close> stores the prefix with a slash
  at its end.
\<close>

theorem ignored_directory_not_added:
  "(\<forall>d g'. Dependency_ctor e path fl (glob st) = (Ok d, g')
            \<and> prefix d \<in> set (prefixes_to_ignore (glob st)) \<longrightarrow>
        fst (addDependency e path fl st) = Ok ()
        \<and> length (deps (snd (addDependency e path fl st))) = length (deps st)
        \<and> map getOriginalPath (deps (snd (addDependency e path fl st)))
            = map getOriginalPath (deps st)
        \<and> deps_per_file (snd (addDependency e path fl st))
            = (deps_per_file st)(fl \<mapsto> (case deps_per_file st fl of None \<Rightarrow> [] | Some v \<Rightarrow> v)))
   \<and> no_ignored_entries ((initial_state input)\<lparr>glob := gs\<rparr>)
   \<and> (no_ignored_entries st \<longrightarrow>
        no_ignored_entries (snd (addDependency e path fl st))
        \<and> no_ignored_entries (snd (collectDependencies e fl st))
        \<and> no_ignored_entries (snd (subdeps_pass e st))
        \<and> (\<forall>k r st'. collectSubDependencies k e st = Some (r, st') \<longrightarrow> no_ignored_entries st'))
   \<and> (ip \<noteq> [] \<longrightarrow>
        ignore_prefix ip g =
          (Ok (), g\<lparr>prefixes_to_ignore :=
                     prefixes_to_ignore g @ [if last ip \<noteq> CHR ''/'' then ip @ ''/'' else ip]\<rparr>))"
proof (intro conjI allI impI)
  fix d g'
  assume a: "Dependency_ctor e path fl (glob st) = (Ok d, g')
             \<and> prefix d \<in> set (prefixes_to_ignore (glob st))"
  then have "\<not> isPrefixBundled (glob st) (prefix d)"
    by (simp add: isPrefixBundled_def isPrefixIgnored_iff)
  with a have eq: "addDependency e path fl st = (Ok (), graph_add d fl False (st\<lparr>glob := g'\<rparr>))"
    by (intro addDependency_not_bundled) simp_all
  show "fst (addDependency e path fl st) = Ok ()"
    and "length (deps (snd (addDependency e path fl st))) = length (deps st)"
    and "map getOriginalPath (deps (snd (addDependency e path fl st)))
            = map getOriginalPath (deps st)"
    and "deps_per_file (snd (addDependency e path fl st))
            = (deps_per_file st)(fl \<mapsto> (case deps_per_file st fl of None \<Rightarrow> [] | Some v \<Rightarrow> v))"
    unfolding eq by (simp_all add: graph_add_def Let_def)
next
  show "no_ignored_entries ((initial_state input)\<lparr>glob := gs\<rparr>)"
    by (simp add: no_ignored_entries_def initial_state_def)
next
  assume inv: "no_ignored_entries st"
  define X where "X = prefixes_to_ignore (glob st)"
  let ?I = "\<lambda>s. prefixes_to_ignore (glob s) = X \<and> (\<forall>d\<in>set (deps s). prefix d \<notin> set X)"
  have I: "?I st" using inv by (simp add: X_def no_ignored_entries_iff)
  have out: "no_ignored_entries s" if "?I s" for s
    using that by (simp add: no_ignored_entries_iff)
  have add: "\<And>path fl. preserves ?I (addDependency e path fl)"
    by (rule no_ignored_addDependency)
  show "no_ignored_entries (snd (addDependency e path fl st))"
    using preservesD [OF add I] by (rule out)
  show "no_ignored_entries (snd (collectDependencies e fl st))"
    using preservesD [OF guarded_collectDependencies
        [of "\<lambda>g. prefixes_to_ignore g = X" "\<lambda>s. \<forall>d\<in>set (deps s). prefix d \<notin> set X" e fl,
         OF ignore_list_stable add] I]
    by (intro out) simp_all
  show "no_ignored_entries (snd (subdeps_pass e st))"
    using preservesD [OF guarded_subdeps_pass
        [of "\<lambda>g. prefixes_to_ignore g = X" "\<lambda>s. \<forall>d\<in>set (deps s). prefix d \<notin> set X" e,
         OF ignore_list_stable add] I]
    by (intro out) simp_all
  show "no_ignored_entries st'" if "collectSubDependencies k e st = Some (r, st')" for k r st'
    using guarded_collectSubDependencies
        [of "\<lambda>g. prefixes_to_ignore g = X" "\<lambda>s. \<forall>d\<in>set (deps s). prefix d \<notin> set X" e k st r st',
         OF ignore_list_stable add _ _ that] I
    by (intro out) simp_all
next
  assume "ip \<noteq> []"
  then show "ignore_prefix ip g =
          (Ok (), g\<lparr>prefixes_to_ignore :=
                     prefixes_to_ignore g @ [if last ip \<noteq> CHR ''/'' then ip @ ''/'' else ip]\<rparr>)"
    by (simp add: ignore_prefix_def)
qed


text \<open>
  With \<^verbatim>\<open>/custom/ignored/\<close> ignored, the reference \<^verbatim>\<open>@loader_path/libz.dylib\<close> of a file
  in that directory resolves to the existing library \<^verbatim>\<open>/custom/ignored/libz.dylib\<close>,
  which is not added.
\<close>

theorem ignored_directory_not_added_witness:
  "fst (Dependency_ctor env_ignored ''@loader_path/libz.dylib'' ''/custom/ignored/tool''
          (glob state_ignoring))
     = Ok \<lparr>filename = ''libz.dylib'', prefix = ''/custom/ignored/'',
            symlinks = [''@loader_path/libz.dylib''], new_name = []\<rparr>
   \<and> access env_ignored ''/custom/ignored/libz.dylib''
   \<and> ''/custom/ignored/'' \<in> set (prefixes_to_ignore (glob state_ignoring))
   \<and> fst (addDependency env_ignored ''@loader_path/libz.dylib'' ''/custom/ignored/tool''
            state_ignoring) = Ok ()
   \<and> deps (snd (addDependency env_ignored ''@loader_path/libz.dylib'' ''/custom/ignored/tool''
                  state_ignoring)) = []
   \<and> no_ignored_entries state_ignoring"
proof -
  let ?d = "\<lparr>filename = ''libz.dylib'', prefix = ''/custom/ignored/'',
             symlinks = [''@loader_path/libz.dylib''], new_name = []\<rparr>"
  let ?c = "Dependency_ctor env_ignored ''@loader_path/libz.dylib'' ''/custom/ignored/tool''
              (glob state_ignoring)"
  have c: "fst ?c = Ok ?d"
    by code_simp
  then have c': "?c = (Ok ?d, snd ?c)"
    by (metis prod.collapse)
  have a: "access env_ignored ''/custom/ignored/libz.dylib''"
    by (simp add: env_ignored_def)
  have i: "''/custom/ignored/'' \<in> set (prefixes_to_ignore (glob state_ignoring))"
    by (simp add: state_ignoring_eq)
  then have i': "prefix ?d \<in> set (prefixes_to_ignore (glob state_ignoring))"
    by simp
  have s: "state_ignoring = (initial_state [])\<lparr>glob := glob state_ignoring\<rparr>"
    by (simp add: state_ignoring_eq initial_state_def)
  from ignored_directory_not_added
         [where e = env_ignored and path = "''@loader_path/libz.dylib''"
            and fl = "''/custom/ignored/tool''" and st = state_ignoring and input = "[]"
            and gs = "glob state_ignoring" and ip = "''/custom/ignored''"
            and g = "initial_globals []"]
       c' i'
  have r: "fst (addDependency env_ignored ''@loader_path/libz.dylib'' ''/custom/ignored/tool''
                  state_ignoring) = Ok ()"
    and l: "length (deps (snd (addDependency env_ignored ''@loader_path/libz.dylib''
                                 ''/custom/ignored/tool'' state_ignoring)))
              = length (deps state_ignoring)"
    and n: "no_ignored_entries ((initial_state [])\<lparr>glob := glob state_ignoring\<rparr>)"
    by blast+
  from l have l': "deps (snd (addDependency env_ignored ''@loader_path/libz.dylib''
                                ''/custom/ignored/tool'' state_ignoring)) = []"
    by (simp add: state_ignoring_eq initial_state_def)
  from n s have n': "no_ignored_entries state_ignoring" by simp
  from c a i r l' n' show ?thesis by blast
qed

subsection \<open>Merging references to the same file\<close>

text \<open>
  Claim C1, as the spec states it, fails where the real file is not one the program
  bundles.  Two references that both resolve to \<^verbatim>\<open>/usr/lib/libz.1.dylib\<close> leave
  \<^verbatim>\<open>deps\<close> empty: there is no entry, not one.
\<close>

theorem same_system_file_has_no_entry:
  "deps (add_both env_system_link ''/opt/lib/libz.dylib'' ''/app/bin/A''
           ''/opt/lib/libz.1.dylib'' ''/app/bin/A'' (initial_state [])) = []"
proof -
  have nb: "\<not> isPrefixBundled g (dirPrefix ''/usr/lib/libz.1.dylib'')" for g
    by (simp add: isPrefixBundled_def string_eval)
  have a: "Dependency_ctor env_system_link ''/opt/lib/libz.dylib'' ''/app/bin/A'' g =
        (Ok \<lparr>filename = ''libz.1.dylib'', prefix = ''/usr/lib/'',
             symlinks = [''/opt/lib/libz.dylib''], new_name = []\<rparr>, g)" for g
    using Dependency_ctor_not_bundled
      [of "''/opt/lib/libz.dylib''" env_system_link "''/usr/lib/libz.1.dylib''" g "''/app/bin/A''"]
      nb [of g]
    by (simp add: string_eval env_system_link_def)
  have b: "Dependency_ctor env_system_link ''/opt/lib/libz.1.dylib'' ''/app/bin/A'' g =
        (Ok \<lparr>filename = ''libz.1.dylib'', prefix = ''/usr/lib/'',
             symlinks = [''/opt/lib/libz.1.dylib''], new_name = []\<rparr>, g)" for g
    using Dependency_ctor_not_bundled
      [of "''/opt/lib/libz.1.dylib''" env_system_link "''/usr/lib/libz.1.dylib''" g "''/app/bin/A''"]
      nb [of g]
    by (simp add: string_eval env_system_link_def)
  have nb': "\<not> isPrefixBundled g ''/usr/lib/''" for g
    using nb [of g] by (simp add: string_eval)
  show ?thesis
    by (simp add: add_both_def addDependency_eq a b nb' deps_graph_add initial_state_def)
qed

text \<open>
  Claim C1, amended.  Let two references resolve to the same existing file \<open>c\<close>, each
  when its turn comes, whichever is processed first, and let the file names in \<^verbatim>\<open>deps\<close>
  be distinct (they are at the start, and stay so).  Then both calls of
  \<^verbatim>\<open>addDependency\<close> return, and the two orders give the same entries, in the same order,
  with the same aliases as sets.  If the directory of \<open>c\<close> is one the program bundles,
  \<^verbatim>\<open>deps\<close> then has exactly one entry with the leaf name of \<open>c\<close>, and the aliases of that
  entry are those \<^verbatim>\<open>deps\<close> had for this leaf name together with each of the two
  references that differs from \<open>c\<close>.  If it is not, no entry is added: \<^verbatim>\<open>deps\<close> has the
  file names it had.
\<close>

theorem same_file_references_merge:
  assumes "resolves_to e p1 f1 st c" and "resolves_to e p2 f2 (snd (addDependency e p1 f1 st)) c"
    and "resolves_to e p2 f2 st c" and "resolves_to e p1 f1 (snd (addDependency e p2 f2 st)) c"
    and "dirPrefix c \<noteq> []" and "fileExists e c = Ok True"
    and "distinct (map filename (deps st))"
  shows "fst (addDependency e p1 f1 st) = Ok ()
     \<and> fst (addDependency e p2 f2 (snd (addDependency e p1 f1 st))) = Ok ()
     \<and> map entry_view (deps (add_both e p1 f1 p2 f2 st))
         = map entry_view (deps (add_both e p2 f2 p1 f1 st))
     \<and> (isPrefixBundled (glob st) (dirPrefix c) \<longrightarrow>
          length (filter (\<lambda>d. filename d = stripPrefix c) (deps (add_both e p1 f1 p2 f2 st))) = 1
          \<and> (\<forall>d \<in> set (deps (add_both e p1 f1 p2 f2 st)).
                filename d = stripPrefix c \<longrightarrow>
                set (symlinks d) =
                  aliases_of (stripPrefix c) (deps st) \<union> ({rtrim p1, rtrim p2} - {c})))
     \<and> (\<not> isPrefixBundled (glob st) (dirPrefix c) \<longrightarrow>
          map filename (deps (add_both e p1 f1 p2 f2 st)) = map filename (deps st))
     \<and> distinct (map filename (deps (initial_state input)))
     \<and> distinct (map filename (deps (add_both e p1 f1 p2 f2 st)))
     \<and> distinct (map filename (deps (snd (collectDependencies e fl st))))
     \<and> distinct (map filename (deps (snd (subdeps_pass e st))))"
proof -
  define b where "b = isPrefixBundled (glob st) (dirPrefix c)"
  define D where "D = (\<lambda>p. \<lparr>filename = stripPrefix c, prefix = dirPrefix c,
                symlinks = (if c \<noteq> rtrim p then [rtrim p] else []),
                new_name = (if b then stripPrefix c else [])\<rparr>)"
  have one: "fst (addDependency e p f s) = Ok ()
             \<and> deps (snd (addDependency e p f s)) = deps (graph_add (D p) f b s)
             \<and> prefixes_to_ignore (glob (snd (addDependency e p f s))) = prefixes_to_ignore (glob st)"
    if "resolves_to e p f s c" and "prefixes_to_ignore (glob s) = prefixes_to_ignore (glob st)"
    for p f s
  proof -
    have "isPrefixBundled (glob s) (dirPrefix c) = b"
      unfolding b_def using that(2) by (rule isPrefixBundled_cong)
    with addDependency_resolved [OF that(1)] assms(5,6) that(2) show ?thesis
      by (simp add: D_def)
  qed
  let ?s1 = "snd (addDependency e p1 f1 st)"
  let ?s2 = "snd (addDependency e p2 f2 st)"
  from one [OF assms(1)] have r1: "fst (addDependency e p1 f1 st) = Ok ()"
    and d1: "deps ?s1 = deps (graph_add (D p1) f1 b st)"
    and i1: "prefixes_to_ignore (glob ?s1) = prefixes_to_ignore (glob st)" by simp_all
  from one [OF assms(3)] have d2: "deps ?s2 = deps (graph_add (D p2) f2 b st)"
    and i2: "prefixes_to_ignore (glob ?s2) = prefixes_to_ignore (glob st)" by simp_all
  from one [OF assms(2) i1] have r12: "fst (addDependency e p2 f2 ?s1) = Ok ()"
    and d12: "deps (snd (addDependency e p2 f2 ?s1)) = deps (graph_add (D p2) f2 b ?s1)"
    by simp_all
  from one [OF assms(4) i2]
  have d21: "deps (snd (addDependency e p1 f1 ?s2)) = deps (graph_add (D p1) f1 b ?s2)"
    by simp_all
  let ?st12 = "graph_add (D p2) f2 b (graph_add (D p1) f1 b st)"
  let ?st21 = "graph_add (D p1) f1 b (graph_add (D p2) f2 b st)"
  have b12: "deps (add_both e p1 f1 p2 f2 st) = deps ?st12"
    unfolding add_both_def d12 using d1 by (rule deps_graph_add_cong)
  have b21: "deps (add_both e p2 f2 p1 f1 st) = deps ?st21"
    unfolding add_both_def d21 using d2 by (rule deps_graph_add_cong)
  have dist: "distinct (map filename (deps ?st12))"
    by (intro distinct_graph_add assms(7))
  have comm: "map entry_view (deps ?st12) = map entry_view (deps ?st21)"
    by (rule add_entry_commute_any) (simp_all add: D_def)
  have bundled: "length (filter (\<lambda>d. filename d = stripPrefix c) (deps ?st12)) = 1
          \<and> (\<forall>d \<in> set (deps ?st12).
                filename d = stripPrefix c \<longrightarrow>
                set (symlinks d) =
                  aliases_of (stripPrefix c) (deps st) \<union> ({rtrim p1, rtrim p2} - {c}))" if b
  proof
    have mem: "stripPrefix c \<in> filename ` set (deps ?st12)"
      using graph_add_has_entry [of "D p2" f2 "graph_add (D p1) f1 True st"] that
      by (simp add: D_def)
    from dist mem show "length (filter (\<lambda>d. filename d = stripPrefix c) (deps ?st12)) = 1"
      by (rule filter_unique)
    have al: "aliases_of (stripPrefix c) (deps ?st12)
                = aliases_of (stripPrefix c) (deps st) \<union> ({rtrim p1, rtrim p2} - {c})"
      using that by (auto simp: aliases_of_graph_add D_def)
    show "\<forall>d \<in> set (deps ?st12). filename d = stripPrefix c \<longrightarrow>
             set (symlinks d) = aliases_of (stripPrefix c) (deps st) \<union> ({rtrim p1, rtrim p2} - {c})"
    proof (intro ballI impI)
      fix d assume "d \<in> set (deps ?st12)" and n: "filename d = stripPrefix c"
      with dist have "aliases_of (filename d) (deps ?st12) = set (symlinks d)"
        by (intro aliases_of_unique)
      with al n show "set (symlinks d)
          = aliases_of (stripPrefix c) (deps st) \<union> ({rtrim p1, rtrim p2} - {c})"
        by simp
    qed
  qed
  have unbundled: "map filename (deps ?st12) = map filename (deps st)" if "\<not> b"
    using that by (simp add: deps_graph_add)
  have d0: "distinct (map filename (deps (initial_state input)))"
    by (simp add: initial_state_def)
  have dc: "distinct (map filename (deps (snd (collectDependencies e fl st))))"
    using assms(7) by (rule distinct_collectDependencies)
  have dp: "distinct (map filename (deps (snd (subdeps_pass e st))))"
    using assms(7) by (rule distinct_subdeps_pass)
  from r1 r12 comm bundled unbundled dist d0 dc dp show ?thesis
    unfolding b12 b21 b_def by blast
qed


text \<open>
  \<^verbatim>\<open>/app/bin/A\<close> refers to the library as \<^verbatim>\<open>@loader_path/../lib/libz.dylib\<close> and
  \<^verbatim>\<open>/app/bin/B\<close> by its path \<^verbatim>\<open>/app/lib/libz.dylib\<close>: one entry, with the relocatable
  reference as its alias, in either order.
\<close>

theorem same_file_references_merge_witness:
  "resolves_to env_loader ''@loader_path/../lib/libz.dylib'' ''/app/bin/A'' (initial_state [])
     ''/app/lib/libz.dylib''
   \<and> resolves_to env_loader ''/app/lib/libz.dylib'' ''/app/bin/B''
       (snd (addDependency env_loader ''@loader_path/../lib/libz.dylib'' ''/app/bin/A''
               (initial_state [])))
       ''/app/lib/libz.dylib''
   \<and> resolves_to env_loader ''/app/lib/libz.dylib'' ''/app/bin/B'' (initial_state [])
       ''/app/lib/libz.dylib''
   \<and> resolves_to env_loader ''@loader_path/../lib/libz.dylib'' ''/app/bin/A''
       (snd (addDependency env_loader ''/app/lib/libz.dylib'' ''/app/bin/B'' (initial_state [])))
       ''/app/lib/libz.dylib''
   \<and> fileExists env_loader ''/app/lib/libz.dylib'' = Ok True
   \<and> isPrefixBundled (glob (initial_state [])) (dirPrefix ''/app/lib/libz.dylib'')
   \<and> length (filter (\<lambda>d. filename d = ''libz.dylib'')
        (deps (add_both env_loader ''@loader_path/../lib/libz.dylib'' ''/app/bin/A''
                 ''/app/lib/libz.dylib'' ''/app/bin/B'' (initial_state [])))) = 1
   \<and> map entry_view
        (deps (add_both env_loader ''@loader_path/../lib/libz.dylib'' ''/app/bin/A''
                 ''/app/lib/libz.dylib'' ''/app/bin/B'' (initial_state [])))
     = map entry_view
        (deps (add_both env_loader ''/app/lib/libz.dylib'' ''/app/bin/B''
                 ''@loader_path/../lib/libz.dylib'' ''/app/bin/A'' (initial_state [])))
   \<and> map (\<lambda>d. (getOriginalPath d, symlinks d))
        (deps (add_both env_loader ''@loader_path/../lib/libz.dylib'' ''/app/bin/A''
                 ''/app/lib/libz.dylib'' ''/app/bin/B'' (initial_state [])))
     = [(''/app/lib/libz.dylib'', [''@loader_path/../lib/libz.dylib''])]"
proof -
  let ?p1 = "''@loader_path/../lib/libz.dylib''" and ?p2 = "''/app/lib/libz.dylib''"
  have h1: "resolves_to env_loader ?p1 ''/app/bin/A'' (initial_state []) ''/app/lib/libz.dylib''"
    by code_simp
  have h2: "resolves_to env_loader ?p2 ''/app/bin/B''
              (snd (addDependency env_loader ?p1 ''/app/bin/A'' (initial_state [])))
              ''/app/lib/libz.dylib''"
    by code_simp
  have h3: "resolves_to env_loader ?p2 ''/app/bin/B'' (initial_state []) ''/app/lib/libz.dylib''"
    by code_simp
  have h4: "resolves_to env_loader ?p1 ''/app/bin/A''
              (snd (addDependency env_loader ?p2 ''/app/bin/B'' (initial_state [])))
              ''/app/lib/libz.dylib''"
    by code_simp
  have h5: "dirPrefix ''/app/lib/libz.dylib'' \<noteq> []"
    by (simp add: string_eval)
  have h6: "fileExists env_loader ''/app/lib/libz.dylib'' = Ok True"
    by (simp add: fileExists_def env_loader_def)
  have h7: "distinct (map filename (deps (initial_state [])))"
    by (simp add: initial_state_def)
  have b: "isPrefixBundled (glob (initial_state [])) (dirPrefix ''/app/lib/libz.dylib'')"
    by (simp add: isPrefixBundled_def isPrefixIgnored_def string_eval initial_state_def
        initial_globals_def)
  have n: "stripPrefix ''/app/lib/libz.dylib'' = ''libz.dylib''"
    by (simp add: string_eval)
  have v: "map (\<lambda>d. (getOriginalPath d, symlinks d))
        (deps (add_both env_loader ?p1 ''/app/bin/A'' ?p2 ''/app/bin/B'' (initial_state [])))
     = [(''/app/lib/libz.dylib'', [''@loader_path/../lib/libz.dylib''])]"
    by code_simp
  from same_file_references_merge [OF h1 h2 h3 h4 h5 h6 h7] b
  have "length (filter (\<lambda>d. filename d = stripPrefix ''/app/lib/libz.dylib'')
          (deps (add_both env_loader ?p1 ''/app/bin/A'' ?p2 ''/app/bin/B'' (initial_state [])))) = 1"
    and "map entry_view
          (deps (add_both env_loader ?p1 ''/app/bin/A'' ?p2 ''/app/bin/B'' (initial_state [])))
       = map entry_view
          (deps (add_both env_loader ?p2 ''/app/bin/B'' ?p1 ''/app/bin/A'' (initial_state [])))"
    by blast+
  with h1 h2 h3 h4 h6 b v show ?thesis unfolding n by blast
qed

subsection \<open>System libraries and frameworks\<close>

text \<open>
  Claim C3.  A line whose reference begins with \<^verbatim>\<open>/usr/lib/\<close> or \<^verbatim>\<open>/System/Library/\<close>, or
  that contains \<^verbatim>\<open>.framework\<close>, changes nothing, in whatever file and however often it
  occurs: the loop of \<^verbatim>\<open>collectDependencies\<close> does on a list of lines what it does on
  the list with these lines removed.  So the tables never hold such a reference: the
  property \<open>no_system_refs\<close> of \<^verbatim>\<open>deps\<close> holds at the start and survives the inspection
  of any file, every pass of the expansion and the whole expansion, however they end;
  and where it holds, \<^verbatim>\<open>/usr/lib/libSystem.B.dylib\<close> is neither the original path nor
  an alias of any entry.
\<close>

theorem system_and_framework_references_never_added:
  "(skipped_line line \<longrightarrow> collectDependencies_line e fl line st = (Ok (), st))
   \<and> forM lines (collectDependencies_line e fl) st =
       forM (filter (\<lambda>l. \<not> skipped_line l) lines) (collectDependencies_line e fl) st
   \<and> no_system_refs (deps (initial_state input))
   \<and> (no_system_refs (deps st) \<longrightarrow>
        no_system_refs (deps (snd (collectDependencies e fl st)))
        \<and> no_system_refs (deps (snd (subdeps_pass e st)))
        \<and> (\<forall>k r st'. collectSubDependencies k e st = Some (r, st') \<longrightarrow>
              no_system_refs (deps st'))
        \<and> (\<forall>d\<in>set (deps st).
              getOriginalPath d \<noteq> ''/usr/lib/libSystem.B.dylib''
              \<and> ''/usr/lib/libSystem.B.dylib'' \<notin> set (symlinks d)))"
proof (intro conjI impI allI)
  assume "skipped_line line"
  then show "collectDependencies_line e fl line st = (Ok (), st)"
    by (rule collectDependencies_line_skipped)
next
  show "forM lines (collectDependencies_line e fl) st =
          forM (filter (\<lambda>l. \<not> skipped_line l) lines) (collectDependencies_line e fl) st"
    by (rule forM_skipped)
next
  show "no_system_refs (deps (initial_state input))"
    by (simp add: initial_state_def no_system_refs_def)
next
  assume inv: "no_system_refs (deps st)"
  have add: "\<And>path fl. \<not> isSystemLibrary path \<Longrightarrow> \<not> str_contains path ''.framework''
               \<Longrightarrow> preserves (\<lambda>st. no_system_refs (deps st)) (addDependency e path fl)"
    by (rule no_system_refs_addDependency)
  show "no_system_refs (deps (snd (collectDependencies e fl st)))"
    using preservesD [OF tables_collectDependencies
        [of "\<lambda>st. no_system_refs (deps st)" e fl, OF add] inv]
    by simp
  show "no_system_refs (deps (snd (subdeps_pass e st)))"
    using preservesD [OF tables_subdeps_pass
        [of "\<lambda>st. no_system_refs (deps st)" e, OF add] inv]
    by simp
  show "no_system_refs (deps st')" if "collectSubDependencies k e st = Some (r, st')" for k r st'
    using tables_collectSubDependencies
        [of "\<lambda>st. no_system_refs (deps st)" e k st r st', OF add] that inv
    by simp
  have sys: "isSystemLibrary ''/usr/lib/libSystem.B.dylib''"
    by (simp add: isSystemLibrary_iff starts_with_def)
  show "\<forall>d\<in>set (deps st).
          getOriginalPath d \<noteq> ''/usr/lib/libSystem.B.dylib''
          \<and> ''/usr/lib/libSystem.B.dylib'' \<notin> set (symlinks d)"
    using inv sys unfolding no_system_refs_iff by metis
qed

text \<open>
  \<^verbatim>\<open>/app/bin/A\<close> names the system library twice and two frameworks: only
  \<^verbatim>\<open>/opt/lib/libX.dylib\<close> is in \<^verbatim>\<open>deps\<close> after its inspection.
\<close>

theorem system_and_framework_references_witness:
  "skipped_line (CHR 0x09 # ''/usr/lib/libSystem.B.dylib (offset 24)'')
   \<and> collectDependencies_line env_app ''/app/bin/A''
        (CHR 0x09 # ''/usr/lib/libSystem.B.dylib (offset 24)'') (initial_state [])
       = (Ok (), initial_state [])
   \<and> no_system_refs (deps (initial_state []))
   \<and> no_system_refs (deps (snd (collectDependencies env_app ''/app/bin/A'' (initial_state []))))
   \<and> map getOriginalPath
        (deps (snd (collectDependencies env_app ''/app/bin/A'' (initial_state []))))
       = [''/opt/lib/libX.dylib'']"
proof -
  have s: "skipped_line (CHR 0x09 # ''/usr/lib/libSystem.B.dylib (offset 24)'')"
    by code_simp
  have v: "map getOriginalPath
             (deps (snd (collectDependencies env_app ''/app/bin/A'' (initial_state []))))
           = [''/opt/lib/libX.dylib'']"
    by code_simp
  from system_and_framework_references_never_added
         [of "CHR 0x09 # ''/usr/lib/libSystem.B.dylib (offset 24)''" env_app "''/app/bin/A''"
             "initial_state []" "[]" "[]"]
       s v
  show ?thesis by blast
qed

subsection \<open>Inspected files and their lists\<close>

text \<open>
  Claim C6, as the spec states it, fails from right to left.  \<^verbatim>\<open>/opt/lib/libX.dylib\<close>
  loads the system library only: after its inspection it is in \<^verbatim>\<open>deps_collected\<close>,
  and \<^verbatim>\<open>deps_per_file\<close> has no entry for it, not an empty one.  The entry is made by
  \<^verbatim>\<open>addDependency\<close>, which is not called for a file all of whose references are passed
  over.
\<close>

theorem inspected_file_without_list:
  "deps_collected (snd (collectDependencies env_app ''/opt/lib/libX.dylib'' (initial_state [])))
     ''/opt/lib/libX.dylib'' = Some True
   \<and> deps_per_file (snd (collectDependencies env_app ''/opt/lib/libX.dylib'' (initial_state [])))
     ''/opt/lib/libX.dylib'' = None"
  by code_simp

text \<open>
  Claim C6, amended: from left to right.  At the start, and after any inspections that
  have returned (one file, a pass of the expansion, the whole expansion), every file
  with an entry in \<^verbatim>\<open>deps_per_file\<close> is in \<^verbatim>\<open>deps_collected\<close>; and the file just
  inspected is in \<^verbatim>\<open>deps_collected\<close>.
\<close>

theorem listed_files_are_inspected:
  "listed_are_inspected (initial_state input)
   \<and> (listed_are_inspected st \<longrightarrow>
        (\<forall>st'. collectDependencies e fl st = (Ok (), st') \<longrightarrow>
           listed_are_inspected st' \<and> fl \<in> dom (deps_collected st'))
        \<and> (\<forall>st'. subdeps_pass e st = (Ok (), st') \<longrightarrow> listed_are_inspected st')
        \<and> (\<forall>k st'. collectSubDependencies k e st = Some (Ok (), st') \<longrightarrow>
              listed_are_inspected st'))"
proof (intro conjI impI allI)
  show "listed_are_inspected (initial_state input)"
    by (simp add: listed_are_inspected_def initial_state_def)
next
  fix st' assume inv: "listed_are_inspected st" and r: "collectDependencies e fl st = (Ok (), st')"
  from listed_collectDependencies inv r show "listed_are_inspected st'"
    by (rule preserves_on_returnD)
  from r show "fl \<in> dom (deps_collected st')"
    by (rule collectDependencies_marks)
next
  fix st' assume "listed_are_inspected st" and "subdeps_pass e st = (Ok (), st')"
  with listed_subdeps_pass show "listed_are_inspected st'"
    by (rule preserves_on_returnD)
next
  fix k st' assume "listed_are_inspected st" and "collectSubDependencies k e st = Some (Ok (), st')"
  then show "listed_are_inspected st'"
    by (auto dest: listed_collectSubDependencies)
qed

text \<open>The inspection of \<^verbatim>\<open>/app/bin/A\<close> returns and leaves a list for that file only.\<close>

theorem listed_files_are_inspected_witness:
  "listed_are_inspected (initial_state [])
   \<and> fst (collectDependencies env_app ''/app/bin/A'' (initial_state [])) = Ok ()
   \<and> listed_are_inspected (snd (collectDependencies env_app ''/app/bin/A'' (initial_state [])))
   \<and> ''/app/bin/A''
       \<in> dom (deps_collected (snd (collectDependencies env_app ''/app/bin/A'' (initial_state []))))"
proof -
  have r: "fst (collectDependencies env_app ''/app/bin/A'' (initial_state [])) = Ok ()"
    by code_simp
  then have "collectDependencies env_app ''/app/bin/A'' (initial_state [])
               = (Ok (), snd (collectDependencies env_app ''/app/bin/A'' (initial_state [])))"
    by (metis prod.collapse)
  with listed_files_are_inspected [of "[]" "initial_state []" env_app "''/app/bin/A''"] r
  show ?thesis by blast
qed

subsection \<open>The order of the rpath entries\<close>

text \<open>
  Claim C7 at a failing input.  The first rpath entry of \<^verbatim>\<open>/app/bin/A\<close> is \<^verbatim>\<open>/opt/lib\<close> and
  its candidate \<^verbatim>\<open>/opt/lib/libY.dylib\<close> exists, yet \<^verbatim>\<open>@rpath/libY.dylib\<close> is resolved
  through the second entry, to \<^verbatim>\<open>/app/lib/libY.dylib\<close>: \<^verbatim>\<open>check_path\<close> gives a candidate
  with neither \<^verbatim>\<open>@loader_path\<close> nor \<^verbatim>\<open>@rpath\<close> in it the empty path to test.
\<close>

theorem later_rpath_entry_wins:
  "rpaths_per_file (glob (snd (collectDependencies env_rpath ''/app/bin/A'' (initial_state []))))
     ''/app/bin/A'' = Some [''/opt/lib'', ''@loader_path/../lib'']
   \<and> fileExists env_rpath (''/opt/lib'' @ ''/'' @ ''libY.dylib'') = Ok True
   \<and> realpath env_rpath (''/opt/lib'' @ ''/'' @ ''libY.dylib'') = Some ''/opt/lib/libY.dylib''
   \<and> fst (collectDependencies env_rpath ''/app/bin/A'' (initial_state [])) = Ok ()
   \<and> map getOriginalPath
        (deps (snd (collectDependencies env_rpath ''/app/bin/A'' (initial_state []))))
       = [''/app/lib/libY.dylib'']"
  by code_simp

subsection \<open>The passes of the expansion\<close>

text \<open>
  Claim C5.  Let \<open>F\<close> be a finite set of leaf file names that holds those of all
  dependencies known after at most \<open>card F\<close> passes (a finite graph), and let each of
  these passes return (the inspector answers for every file, and nothing has to be
  asked).  Then the loop of \<^verbatim>\<open>collectSubDependencies\<close> ends: after \<open>k\<close> passes that
  each added an entry, with \<open>k\<close> at most the number of names in \<open>F\<close> not yet in
  \<^verbatim>\<open>deps\<close>, a pass adds nothing and the function returns, whatever the number of
  passes allowed beyond \<open>k\<close>; with the pass that adds nothing these are at most
  \<open>card F\<close> passes, unless \<^verbatim>\<open>deps\<close> is empty and that pass is the only one.  The inspection of a file already in \<^verbatim>\<open>deps_collected\<close>
  changes nothing, which is what stops a cycle.
\<close>

theorem expansion_terminates:
  assumes "finite F" and "leafs_within F e st" and "passes_return F e st"
  shows "(\<exists>k st1 st'. k \<le> card F - card (filename ` set (deps st))
            \<and> (deps st \<noteq> [] \<longrightarrow> k < card F)
            \<and> passes k e st = Some st1
            \<and> length (deps st) + k \<le> length (deps st1)
            \<and> subdeps_pass e st1 = (Ok (), st')
            \<and> length (deps st') = length (deps st1)
            \<and> (\<forall>n>k. collectSubDependencies n e st = Some (Ok (), st')))
     \<and> (\<forall>fl (s :: state). deps_collected s fl \<noteq> None \<longrightarrow>
           collectDependencies e fl s = (Ok (), s))"
proof (intro conjI allI impI)
  let ?K = "card F - card (filename ` set (deps st)) + 1"
  from expansion_over_within [OF assms(1,2)] obtain r st' where
    run: "collectSubDependencies ?K e st = Some (r, st')" by auto
  have "\<forall>k<?K. \<forall>s. passes k e st = Some s \<longrightarrow> fst (subdeps_pass e s) = Ok ()"
  proof (intro allI impI)
    fix k s assume "k < ?K" and p: "passes k e st = Some s"
    then have "k \<le> card F" by arith
    with assms(3) p show "fst (subdeps_pass e s) = Ok ()"
      unfolding passes_return_def by blast
  qed
  from expansion_outcome [OF this run] have "r = Ok ()" .
  with run have "collectSubDependencies ?K e st = Some (Ok (), st')" by simp
  from expansion_shape [OF this] obtain k st1 where
    k: "k < ?K" and ps: "passes k e st = Some st1" and last: "subdeps_pass e st1 = (Ok (), st')"
    and same: "length (deps st') = length (deps st1)"
    and grown: "length (deps st) + k \<le> length (deps st1)"
    and all: "\<forall>n>k. collectSubDependencies n e st = Some (Ok (), st')" by blast
  from k have kb: "k \<le> card F - card (filename ` set (deps st))" by arith
  have total: "k < card F" if "deps st \<noteq> []"
  proof -
    from assms(2) have "\<forall>s. passes 0 e st = Some s \<longrightarrow> filename ` set (deps s) \<subseteq> F"
      unfolding leafs_within_def by blast
    then have "filename ` set (deps st) \<subseteq> F" by simp
    with assms(1) have "card (filename ` set (deps st)) \<le> card F" by (intro card_mono)
    moreover from that have "filename ` set (deps st) \<noteq> {}" by simp
    then have "0 < card (filename ` set (deps st))" by (simp add: card_gt_0_iff)
    ultimately show ?thesis using kb by arith
  qed
  from kb total ps last same all grown
  show "\<exists>k st1 st'. k \<le> card F - card (filename ` set (deps st))
            \<and> (deps st \<noteq> [] \<longrightarrow> k < card F)
            \<and> passes k e st = Some st1
            \<and> length (deps st) + k \<le> length (deps st1)
            \<and> subdeps_pass e st1 = (Ok (), st')
            \<and> length (deps st') = length (deps st1)
            \<and> (\<forall>n>k. collectSubDependencies n e st = Some (Ok (), st'))"
    by blast
next
  fix fl and s :: state assume "deps_collected s fl \<noteq> None"
  then show "collectDependencies e fl s = (Ok (), s)"
    by (simp add: collectDependencies_def)
qed


text \<open>
  The cycle: with \<^verbatim>\<open>libX\<close> in \<^verbatim>\<open>deps\<close> after the inspection of \<^verbatim>\<open>/app/bin/A\<close>, the first
  pass adds \<^verbatim>\<open>libY\<close>, the second adds nothing, and the function returns.
\<close>

theorem expansion_terminates_witness:
  "finite {''libX.dylib'', ''libY.dylib''}
   \<and> leafs_within {''libX.dylib'', ''libY.dylib''} env_cycle
        (snd (collectDependencies env_cycle ''/app/bin/A'' (initial_state [])))
   \<and> passes_return {''libX.dylib'', ''libY.dylib''} env_cycle
        (snd (collectDependencies env_cycle ''/app/bin/A'' (initial_state [])))
   \<and> (\<exists>st'. collectSubDependencies 2 env_cycle
              (snd (collectDependencies env_cycle ''/app/bin/A'' (initial_state [])))
            = Some (Ok (), st'))
   \<and> map_option (\<lambda>r. map getOriginalPath (deps (snd r)))
        (collectSubDependencies 2 env_cycle
           (snd (collectDependencies env_cycle ''/app/bin/A'' (initial_state []))))
       = Some [''/opt/lib/libX.dylib'', ''/opt/lib/libY.dylib'']"
proof -
  let ?F = "{''libX.dylib'', ''libY.dylib''}"
  let ?st = "snd (collectDependencies env_cycle ''/app/bin/A'' (initial_state []))"
  have cF: "card ?F = 2" by simp
  have n0: "map filename (deps ?st) = [''libX.dylib'']"
    by code_simp
  have n1: "map_option (\<lambda>s. map filename (deps s)) (passes 1 env_cycle ?st)
              = Some [''libX.dylib'', ''libY.dylib'']"
    by code_simp
  have n2: "map_option (\<lambda>s. map filename (deps s)) (passes 2 env_cycle ?st)
              = Some [''libX.dylib'', ''libY.dylib'']"
    by code_simp
  have r0: "fst (subdeps_pass env_cycle ?st) = Ok ()"
    by code_simp
  have r1: "map_option (\<lambda>s. fst (subdeps_pass env_cycle s)) (passes 1 env_cycle ?st)
              = Some (Ok ())"
    by code_simp
  have r2: "map_option (\<lambda>s. fst (subdeps_pass env_cycle s)) (passes 2 env_cycle ?st)
              = Some (Ok ())"
    by code_simp
  have v: "map_option (\<lambda>r. map getOriginalPath (deps (snd r)))
             (collectSubDependencies 2 env_cycle ?st)
           = Some [''/opt/lib/libX.dylib'', ''/opt/lib/libY.dylib'']"
    by code_simp
  have f: "finite ?F" by simp
  have cases: "k = 0 \<or> k = 1 \<or> k = 2" if "k \<le> card ?F" for k
    using that unfolding cF by arith
  have l: "leafs_within ?F env_cycle ?st"
    unfolding leafs_within_def
  proof (intro allI impI)
    fix k st' assume k: "k \<le> card ?F" and p: "passes k env_cycle ?st = Some st'"
    from cases [OF k] p n0 n1 n2
    have "set (map filename (deps st')) \<subseteq> ?F" by auto
    then show "filename ` set (deps st') \<subseteq> ?F" by simp
  qed
  have pr: "passes_return ?F env_cycle ?st"
    unfolding passes_return_def
  proof (intro allI impI)
    fix k st' assume k: "k \<le> card ?F" and p: "passes k env_cycle ?st = Some st'"
    from cases [OF k] p r0 r1 r2
    show "fst (subdeps_pass env_cycle st') = Ok ()" by auto
  qed
  have names: "card (filename ` set (deps ?st)) = 1"
  proof -
    have "filename ` set (deps ?st) = set (map filename (deps ?st))" by simp
    also have "\<dots> = {''libX.dylib''}" unfolding n0 by simp
    finally show ?thesis by simp
  qed
  from expansion_terminates [OF f l pr] obtain k st' where
    k: "k \<le> card ?F - card (filename ` set (deps ?st))"
    and all: "\<forall>n>k. collectSubDependencies n env_cycle ?st = Some (Ok (), st')"
    by blast
  from k have "k < 2" unfolding cF names by simp
  with all have "collectSubDependencies 2 env_cycle ?st = Some (Ok (), st')" by blast
  then have "\<exists>st'. collectSubDependencies 2 env_cycle ?st = Some (Ok (), st')" ..
  with f l pr v show ?thesis by blast
qed

text \<open>
  Where a pass does not return, the loop ends with it.  \<^verbatim>\<open>/app/bin/A\<close> loads \<^verbatim>\<open>libX\<close>,
  which loads a library that exists nowhere; with the input at its end, the first pass
  reaches the prompt of \<^verbatim>\<open>getUserInputDirForFile\<close>, which repeats for ever.
\<close>

theorem expansion_hangs_in_prompt:
  "map_option fst
     (collectSubDependencies 1 env_missing
        (snd (collectDependencies env_missing ''/app/bin/A'' (initial_state [])))) = Some Hang
   \<and> map_option fst
     (collectSubDependencies 5 env_missing
        (snd (collectDependencies env_missing ''/app/bin/A'' (initial_state [])))) = Some Hang"
  by code_simp

subsection \<open>The order of the search paths\<close>

text \<open>
  In the constructor of \<^verbatim>\<open>Dependency\<close>, a library that is not where its reference says
  takes its prefix from the first search path, in the order of the list, in which the
  file exists; and \<^verbatim>\<open>missing_prefixes\<close> is set.
\<close>

theorem first_search_path_wins:
  assumes "pfx = [] \<or> fileExists e (pfx @ file) = Ok False"
    and "searchPaths g = ps @ p # qs"
    and "list_all (\<lambda>q. fileExists e (q @ file) = Ok False) ps"
    and "p \<noteq> []" and "fileExists e (p @ file) = Ok True"
  shows "Dependency_locate e file pfx g = (Ok p, g\<lparr>missing_prefixes := True\<rparr>)"
proof -
  have u: "location_unknown e pfx file g = (Ok True, g)"
    using assms(1) by (auto simp: location_unknown_def monad_defs)
  have f: "first_existing e (\<lambda>q. q @ file) (ps @ p # qs) g = (Ok (Some p), g)"
    using assms(3,5) by (rule first_existing_earliest)
  have k: "location_unknown e p file (g\<lparr>missing_prefixes := True\<rparr>)
             = (Ok False, g\<lparr>missing_prefixes := True\<rparr>)"
    using assms(4,5) by (simp add: location_unknown_def monad_defs)
  show ?thesis
    using u f k assms(2)
    by (simp add: Dependency_locate_def bindM_def getsM_def returnM_def if_distribR)
qed

text \<open>
  \<^verbatim>\<open>libX.dylib\<close> is in both search paths; the first one, \<^verbatim>\<open>/first/\<close>, becomes its prefix.
\<close>

theorem first_search_path_wins_witness:
  "fileExists env_two_paths (''/first/'' @ ''libX.dylib'') = Ok True
   \<and> fileExists env_two_paths (''/second/'' @ ''libX.dylib'') = Ok True
   \<and> Dependency_locate env_two_paths ''libX.dylib'' []
        ((initial_globals [])\<lparr>searchPaths := [''/none/'', ''/first/'', ''/second/'']\<rparr>)
       = (Ok ''/first/'',
          (initial_globals [])\<lparr>searchPaths := [''/none/'', ''/first/'', ''/second/''],
                                missing_prefixes := True\<rparr>)"
proof -
  have a: "fileExists env_two_paths (''/first/'' @ ''libX.dylib'') = Ok True"
    and b: "fileExists env_two_paths (''/second/'' @ ''libX.dylib'') = Ok True"
    by (simp_all add: fileExists_def env_two_paths_def)
  have c: "list_all (\<lambda>q. fileExists env_two_paths (q @ ''libX.dylib'') = Ok False) [''/none/'']"
    by code_simp
  have s: "searchPaths ((initial_globals [])\<lparr>searchPaths := [''/none/'', ''/first/'', ''/second/'']\<rparr>)
             = [''/none/''] @ ''/first/'' # [''/second/'']"
    by simp
  from first_search_path_wins [of "[]" env_two_paths "''libX.dylib''", OF _ s c _ a] a b
  show ?thesis by simp
qed

end
